theory Spec2Isabelle
  imports Complex_Main
begin

section \<open>Data model\<close>

text \<open>
  Python floats are modelled as \<^typ>\<open>real\<close> (no rounding, no NaN), Python ints as
  \<^typ>\<open>int\<close>.  \<open>float("inf")\<close> is the value \<open>None\<close> of \<^typ>\<open>real option\<close>.
\<close>

datatype error =
    NoOutletFound          \<comment> \<open>\<open>ValueError("No 'out' node found in confluences.")\<close>\<close>
  | MultipleOutletsFound   \<comment> \<open>named by the specification; never raised by the code\<close>
  | MalformedTopology      \<comment> \<open>named by the specification; never raised by the code\<close>
  | IndexError             \<comment> \<open>Python/numpy index out of range\<close>
  | IndexOutOfRange        \<comment> \<open>usage error of the Traveller, named by the specification\<close>

text \<open>\<open>pyromb/core/geometry/point.py\<close>, \<open>pyromb/core/attributes/node.py\<close>.\<close>

record node =
  node_name :: string
  node_x :: real
  node_y :: real

definition coordinates :: "'a node_scheme \<Rightarrow> real \<times> real" where
  "coordinates p = (node_x p, node_y p)"

text \<open>
  Modelled from the spec: the classes \<open>Basin\<close> and \<open>Confluence\<close>
  (\<open>attributes/basin.py\<close>, \<open>attributes/confluence.py\<close>) are not among the sources.  Both
  extend \<open>Node\<close>; a Basin carries area and impervious fraction, a Confluence the
  boolean "is outlet" flag.  The runtime type test \<open>isinstance\<close> is the constructor of
  \<open>vertex\<close>.
\<close>

record basin = node +
  area :: real
  fi :: real

record confluence = node +
  isOut :: bool

datatype vertex = Basin basin | Confluence confluence

fun vertex_coordinates :: "vertex \<Rightarrow> real \<times> real" where
  "vertex_coordinates (Basin b) = coordinates b"
| "vertex_coordinates (Confluence cf) = coordinates cf"

text \<open>\<open>isinstance(vertex, Confluence) and vertex.isOut\<close>\<close>

fun is_out_confluence :: "vertex \<Rightarrow> bool" where
  "is_out_confluence (Basin b) = False"
| "is_out_confluence (Confluence cf) = isOut cf"

text \<open>\<open>pyromb/core/attributes/reach.py\<close>, \<open>pyromb/core/geometry/line.py\<close>.\<close>

datatype ReachType = NATURAL | UNLINED | LINED | DROWNED

record reach =
  reach_name :: string
  vector :: "node list"
  reachType :: ReachType
  slope :: real

text \<open>\<open>Reach.getPoint("us")\<close> is \<open>self._vector[0]\<close>, \<open>Reach.getPoint("ds")\<close> is
  \<open>self._vector[-1]\<close>; both raise \<open>IndexError\<close> on a reach without points.\<close>

definition getStart :: "reach \<Rightarrow> error + node" where
  "getStart r = (case vector r of [] \<Rightarrow> Inl IndexError | p # ps \<Rightarrow> Inr p)"

definition getEnd :: "reach \<Rightarrow> error + node" where
  "getEnd r = (case vector r of [] \<Rightarrow> Inl IndexError | p # ps \<Rightarrow> Inr (last (p # ps)))"

type_synonym matrix = "int list list"

text \<open>\<open>pyromb/core/catchment.py\<close>: the fields of \<open>Catchment\<close>.\<close>

record catchment =
  edges :: "reach list"
  vertices :: "vertex list"
  incidenceMatrixDS :: matrix
  incidenceMatrixUS :: matrix
  out_node_index :: int
  endSentinel :: int

text \<open>An optional list argument: \<open>None\<close> stands for no elements.\<close>

definition or_empty :: "'a list option \<Rightarrow> 'a list" where
  "or_empty xs = (case xs of None \<Rightarrow> [] | Some l \<Rightarrow> l)"

text \<open>\<open>Catchment.__init__\<close>: the vertex list starts empty, is extended by the
  confluences and then by the basins; an argument that is \<open>None\<close> or empty adds nothing.\<close>

definition Catchment_init ::
  "confluence list option \<Rightarrow> basin list option \<Rightarrow> reach list option \<Rightarrow> catchment" where
  "Catchment_init confluences basins reaches =
     \<lparr> edges = or_empty reaches,
       vertices = [] @ map Confluence (or_empty confluences) @ map Basin (or_empty basins),
       incidenceMatrixDS = [],
       incidenceMatrixUS = [],
       out_node_index = - 1,
       endSentinel = - 1 \<rparr>"

section \<open>Spatial matching\<close>

text \<open>\<open>math.hypot\<close> of the standard library.\<close>

definition hypot :: "real \<Rightarrow> real \<Rightarrow> real" where
  "hypot a b = sqrt (a\<^sup>2 + b\<^sup>2)"

text \<open>The distance both lookups compute for a vertex:
  \<open>math.hypot(vertex_coords[0] - coords[0], vertex_coords[1] - coords[1])\<close>.\<close>

definition distance_to :: "vertex \<Rightarrow> real \<times> real \<Rightarrow> real" where
  "distance_to v coords =
     (let vertex_coords = vertex_coordinates v
      in hypot (fst vertex_coords - fst coords) (snd vertex_coords - snd coords))"

text \<open>\<open>distance < min_distance\<close>, where \<open>min_distance\<close> starts as infinity.\<close>

fun less_min :: "real \<Rightarrow> real option \<Rightarrow> bool" where
  "less_min d None = True"
| "less_min d (Some m) = (d < m)"

text \<open>\<open>min_distance > tol\<close>\<close>

fun min_exceeds :: "real option \<Rightarrow> real \<Rightarrow> bool" where
  "min_exceeds None tol = True"
| "min_exceeds (Some m) tol = (m > tol)"

text \<open>The loop of \<open>_find_closest_vertex\<close> over \<open>enumerate(self._vertices)\<close>; the state
  is \<open>(min_distance, closest_vertex_idx)\<close>.\<close>

fun closest_loop ::
  "vertex list \<Rightarrow> real \<times> real \<Rightarrow> int \<Rightarrow> real option \<times> int \<Rightarrow> real option \<times> int" where
  "closest_loop [] node_coords vertex_idx (min_distance, closest_vertex_idx) =
     (min_distance, closest_vertex_idx)"
| "closest_loop (v # rest) node_coords vertex_idx (min_distance, closest_vertex_idx) =
     (let distance = distance_to v node_coords
      in if less_min distance min_distance
         then closest_loop rest node_coords (vertex_idx + 1) (Some distance, vertex_idx)
         else closest_loop rest node_coords (vertex_idx + 1) (min_distance, closest_vertex_idx))"

definition find_closest_vertex :: "catchment \<Rightarrow> node \<Rightarrow> real \<Rightarrow> int" where
  "find_closest_vertex c nd tol =
     (let node_coords = coordinates nd;
          (min_distance, closest_vertex_idx) =
             closest_loop (vertices c) node_coords 0 (None, - 1)
      in if min_exceeds min_distance tol then - 1 else closest_vertex_idx)"

text \<open>The default tolerance of \<open>_find_closest_vertex\<close>: \<open>tol = 1e-6\<close>.\<close>

definition closest_vertex_tol :: real where
  "closest_vertex_tol = 1 / 1000000"

text \<open>The loop of \<open>_find_vertex_by_coordinates\<close>: the first vertex in list order whose
  distance is within the tolerance is returned at once.\<close>

fun coordinates_loop :: "vertex list \<Rightarrow> real \<times> real \<Rightarrow> real \<Rightarrow> int \<Rightarrow> int" where
  "coordinates_loop [] coords tol idx = - 1"
| "coordinates_loop (v # rest) coords tol idx =
     (if distance_to v coords \<le> tol then idx
      else coordinates_loop rest coords tol (idx + 1))"

definition find_vertex_by_coordinates :: "catchment \<Rightarrow> real \<times> real \<Rightarrow> real \<Rightarrow> int" where
  "find_vertex_by_coordinates c coords tol = coordinates_loop (vertices c) coords tol 0"

text \<open>The default tolerance of \<open>_find_vertex_by_coordinates\<close>: \<open>tol = 1e-1\<close>.\<close>

definition by_coordinates_tol :: real where
  "by_coordinates_tol = 1 / 10"

section \<open>Matrices\<close>

text \<open>Integer indexing along an axis of size \<open>n\<close>, as Python lists and numpy arrays do
  it: a negative index counts from the end, anything else out of range raises.\<close>

definition py_index :: "nat \<Rightarrow> int \<Rightarrow> error + nat" where
  "py_index n i =
     (if 0 \<le> i \<and> i < int n then Inr (nat i)
      else if - int n \<le> i \<and> i < 0 then Inr (nat (i + int n))
      else Inl IndexError)"

definition list_get :: "'a list \<Rightarrow> int \<Rightarrow> error + 'a" where
  "list_get xs i = (case py_index (length xs) i of Inl err \<Rightarrow> Inl err | Inr k \<Rightarrow> Inr (xs ! k))"

text \<open>\<open>m[i, j]\<close> and \<open>m[i, j] = val\<close> on a two-dimensional array.\<close>

definition mat_get :: "matrix \<Rightarrow> int \<Rightarrow> int \<Rightarrow> error + int" where
  "mat_get m i j =
     (case py_index (length m) i of
        Inl err \<Rightarrow> Inl err
      | Inr r \<Rightarrow>
          (case py_index (length (m ! r)) j of
             Inl err \<Rightarrow> Inl err
           | Inr k \<Rightarrow> Inr (m ! r ! k)))"

definition mat_set :: "matrix \<Rightarrow> int \<Rightarrow> int \<Rightarrow> int \<Rightarrow> error + matrix" where
  "mat_set m i j val =
     (case py_index (length m) i of
        Inl err \<Rightarrow> Inl err
      | Inr r \<Rightarrow>
          (case py_index (length (m ! r)) j of
             Inl err \<Rightarrow> Inl err
           | Inr k \<Rightarrow> Inr (m[r := (m ! r)[k := val]])))"

text \<open>\<open>np.full((num_vertices, num_edges), val, dtype=int)\<close>; \<open>np.zeros\<close> is \<open>np_full\<close>
  with 0.\<close>

definition np_full :: "nat \<Rightarrow> nat \<Rightarrow> int \<Rightarrow> matrix" where
  "np_full num_vertices num_edges val = replicate num_vertices (replicate num_edges val)"

definition np_zeros :: "nat \<Rightarrow> nat \<Rightarrow> matrix" where
  "np_zeros num_vertices num_edges = np_full num_vertices num_edges 0"

section \<open>Connecting the catchment\<close>

text \<open>The loop that fills the connection matrix (the body of
  \<open>_initialize_connection_matrix\<close>, repeated at the head of \<open>connect\<close>): 1 marks the
  vertex bound to the start of the edge, 2 the vertex bound to its end.  An edge with an
  unbound end point is skipped.\<close>

fun connection_loop :: "catchment \<Rightarrow> reach list \<Rightarrow> int \<Rightarrow> matrix \<Rightarrow> error + matrix" where
  "connection_loop c [] edge_idx connection_matrix = Inr connection_matrix"
| "connection_loop c (edge # rest) edge_idx connection_matrix =
     (case getStart edge of Inl err \<Rightarrow> Inl err | Inr start_node \<Rightarrow>
     (case getEnd edge of Inl err \<Rightarrow> Inl err | Inr end_node \<Rightarrow>
        let closest_start_idx = find_closest_vertex c start_node closest_vertex_tol;
            closest_end_idx = find_closest_vertex c end_node closest_vertex_tol
        in if closest_start_idx = - 1 \<or> closest_end_idx = - 1
           then connection_loop c rest (edge_idx + 1) connection_matrix
           else
             (case mat_set connection_matrix closest_start_idx edge_idx 1 of
                Inl err \<Rightarrow> Inl err
              | Inr cm1 \<Rightarrow>
             (case mat_set cm1 closest_end_idx edge_idx 2 of
                Inl err \<Rightarrow> Inl err
              | Inr cm2 \<Rightarrow> connection_loop c rest (edge_idx + 1) cm2))))"

definition initialize_connection_matrix :: "catchment \<Rightarrow> nat \<Rightarrow> nat \<Rightarrow> error + matrix" where
  "initialize_connection_matrix c num_vertices num_edges =
     connection_loop c (edges c) 0 (np_zeros num_vertices num_edges)"

text \<open>\<open>_find_out_node\<close>: the first Confluence flagged as outlet, in list order, is
  stored; the scan stops there.  Without one, \<open>ValueError\<close>.\<close>

fun out_node_loop :: "vertex list \<Rightarrow> int \<Rightarrow> error + int" where
  "out_node_loop [] idx = Inl NoOutletFound"
| "out_node_loop (v # rest) idx =
     (if is_out_confluence v then Inr idx else out_node_loop rest (idx + 1))"

definition find_out_node :: "catchment \<Rightarrow> error + catchment" where
  "find_out_node c =
     (case out_node_loop (vertices c) 0 of
        Inl err \<Rightarrow> Inl err
      | Inr idx \<Rightarrow> Inr (c\<lparr>out_node_index := idx\<rparr>))"

text \<open>The loop of \<open>connect\<close> that fills the two incidence matrices, edge by edge.\<close>

fun incidence_loop ::
  "catchment \<Rightarrow> reach list \<Rightarrow> int \<Rightarrow> matrix \<times> matrix \<Rightarrow> error + matrix \<times> matrix" where
  "incidence_loop c [] edge_idx (incidence_matrix_ds, incidence_matrix_us) =
     Inr (incidence_matrix_ds, incidence_matrix_us)"
| "incidence_loop c (edge # rest) edge_idx (incidence_matrix_ds, incidence_matrix_us) =
     (case getStart edge of Inl err \<Rightarrow> Inl err | Inr start_node \<Rightarrow>
     (case getEnd edge of Inl err \<Rightarrow> Inl err | Inr end_node \<Rightarrow>
        let start_idx = find_closest_vertex c start_node closest_vertex_tol;
            end_idx = find_closest_vertex c end_node closest_vertex_tol
        in if start_idx \<noteq> - 1 \<and> end_idx \<noteq> - 1
           then
             (case mat_set incidence_matrix_ds start_idx edge_idx end_idx of
                Inl err \<Rightarrow> Inl err
              | Inr ds' \<Rightarrow>
             (case mat_set incidence_matrix_us end_idx edge_idx start_idx of
                Inl err \<Rightarrow> Inl err
              | Inr us' \<Rightarrow> incidence_loop c rest (edge_idx + 1) (ds', us')))
           else incidence_loop c rest (edge_idx + 1)
                  (incidence_matrix_ds, incidence_matrix_us)))"

text \<open>\<open>connect\<close>: the updated catchment and the pair (downstream, upstream) it returns.
  An exception leaves the catchment as it was.\<close>

definition connect :: "catchment \<Rightarrow> error + catchment \<times> matrix \<times> matrix" where
  "connect c =
     (let num_vertices = length (vertices c);
          num_edges = length (edges c)
      in (case connection_loop c (edges c) 0 (np_zeros num_vertices num_edges) of
           Inl err \<Rightarrow> Inl err
         | Inr connection_matrix \<Rightarrow>
        (case find_out_node c of
           Inl err \<Rightarrow> Inl err
         | Inr c1 \<Rightarrow>
        (case incidence_loop c1 (edges c1) 0
                (np_full num_vertices num_edges (endSentinel c1),
                 np_full num_vertices num_edges (endSentinel c1)) of
           Inl err \<Rightarrow> Inl err
         | Inr (incidence_matrix_ds, incidence_matrix_us) \<Rightarrow>
             let c2 = c1\<lparr>incidenceMatrixDS := incidence_matrix_ds,
                         incidenceMatrixUS := incidence_matrix_us\<rparr>
             in Inr (c2, incidenceMatrixDS c2, incidenceMatrixUS c2)))))"

section \<open>Breadth-first propagation\<close>

text \<open>\<open>_build_incidence_matrices\<close> runs the same loop twice.  The upstream run looks at
  the edges marked 1 at the current vertex and re-matches \<open>edge.getEnd()\<close>; the
  downstream run looks at the edges marked 2 and re-matches \<open>edge.getStart()\<close>.  Here
  the mark and the end point are the parameters \<open>tag\<close> and \<open>endpoint\<close> of one
  definition.  The state of the inner \<open>for\<close> loop is (queue, colour matrix, incidence
  matrix).\<close>

type_synonym bfs_state = "(int \<times> int) list \<times> matrix \<times> matrix"

fun propagate_edges ::
  "catchment \<Rightarrow> int \<Rightarrow> (reach \<Rightarrow> error + node) \<Rightarrow> matrix \<Rightarrow> int \<Rightarrow> int list \<Rightarrow>
     bfs_state \<Rightarrow> error + bfs_state" where
  "propagate_edges c tag endpoint connection_matrix current_vertex [] st = Inr st"
| "propagate_edges c tag endpoint connection_matrix current_vertex (edge_idx # rest)
     (queue, colour, incidence_matrix) =
     (case mat_get connection_matrix current_vertex edge_idx of
        Inl err \<Rightarrow> Inl err
      | Inr connection_type \<Rightarrow>
        if connection_type \<noteq> tag
        then propagate_edges c tag endpoint connection_matrix current_vertex rest
               (queue, colour, incidence_matrix)
        else
     (case mat_get colour current_vertex edge_idx of
        Inl err \<Rightarrow> Inl err
      | Inr visited \<Rightarrow>
        if visited \<noteq> 0
        then propagate_edges c tag endpoint connection_matrix current_vertex rest
               (queue, colour, incidence_matrix)
        else
     (case mat_set colour current_vertex edge_idx 1 of
        Inl err \<Rightarrow> Inl err
      | Inr colour' \<Rightarrow>
     (case list_get (edges c) edge_idx of
        Inl err \<Rightarrow> Inl err
      | Inr edge \<Rightarrow>
     (case endpoint edge of
        Inl err \<Rightarrow> Inl err
      | Inr other_node \<Rightarrow>
        let other_vertex_idx =
              find_vertex_by_coordinates c (coordinates other_node) by_coordinates_tol
        in if other_vertex_idx = - 1
           then propagate_edges c tag endpoint connection_matrix current_vertex rest
                  (queue, colour', incidence_matrix)
           else
     (case mat_set incidence_matrix current_vertex edge_idx other_vertex_idx of
        Inl err \<Rightarrow> Inl err
      | Inr incidence_matrix' \<Rightarrow>
          propagate_edges c tag endpoint connection_matrix current_vertex rest
            (queue @ [(other_vertex_idx, edge_idx)], colour', incidence_matrix')))))))"

text \<open>The number of unvisited cells of a colour matrix; each pass of the \<open>while\<close> loop
  takes one entry from the queue and adds at most one entry per cell it marks.\<close>

definition zero_cells :: "matrix \<Rightarrow> nat" where
  "zero_cells m = sum_list (map (\<lambda>row. length (filter (\<lambda>a. a = 0) row)) m)"

definition bfs_measure :: "bfs_state \<Rightarrow> nat" where
  "bfs_measure st = (case st of (queue, colour, im) \<Rightarrow> 2 * zero_cells colour + length queue)"

text \<open>\<open>range(num_edges)\<close>\<close>

definition edge_range :: "nat \<Rightarrow> int list" where
  "edge_range num_edges = map int [0..<num_edges]"

function bfs ::
  "catchment \<Rightarrow> int \<Rightarrow> (reach \<Rightarrow> error + node) \<Rightarrow> matrix \<Rightarrow> nat \<Rightarrow> bfs_state \<Rightarrow>
     error + matrix" where
  "bfs c tag endpoint connection_matrix num_edges ([], colour, incidence_matrix) =
     Inr incidence_matrix"
| "bfs c tag endpoint connection_matrix num_edges
     ((current_vertex, incoming_edge) # queue, colour, incidence_matrix) =
     (case propagate_edges c tag endpoint connection_matrix current_vertex
             (edge_range num_edges) (queue, colour, incidence_matrix) of
        Inl err \<Rightarrow> Inl err
      | Inr st \<Rightarrow> bfs c tag endpoint connection_matrix num_edges st)"
  by pat_completeness auto

text \<open>\<open>_build_incidence_matrices\<close>: the upstream run, then the downstream run, both
  seeded with \<open>(self._out_node_index, -1)\<close> and a fresh colour matrix.\<close>

definition build_incidence_matrices ::
  "catchment \<Rightarrow> matrix \<Rightarrow> matrix \<Rightarrow> matrix \<Rightarrow> nat \<Rightarrow> nat \<Rightarrow> error + matrix \<times> matrix" where
  "build_incidence_matrices c connection_matrix incidence_matrix_ds incidence_matrix_us
       num_vertices num_edges =
     (case bfs c 1 getEnd connection_matrix num_edges
             ([(out_node_index c, - 1)], np_zeros num_vertices num_edges, incidence_matrix_us) of
        Inl err \<Rightarrow> Inl err
      | Inr us' \<Rightarrow>
     (case bfs c 2 getStart connection_matrix num_edges
             ([(out_node_index c, - 1)], np_zeros num_vertices num_edges, incidence_matrix_ds) of
        Inl err \<Rightarrow> Inl err
      | Inr ds' \<Rightarrow> Inr (ds', us')))"

section \<open>Effective downstream (WBNM)\<close>

text \<open>
  The class \<open>Traveller\<close> (\<open>core/traveller.py\<close>) is not among the sources.  What
  \<open>WBNM._getDsIndex\<close> uses of it is taken as a parameter: \<open>getNode\<close>, \<open>down\<close> and the
  field \<open>_endSentinel\<close>, each call either raising or returning.
\<close>

record traveller =
  getNode :: "int \<Rightarrow> error + vertex"
  down :: "int \<Rightarrow> error + int"
  t_endSentinel :: int

text \<open>
  \<open>WBNM._getDsIndex\<close> calls itself with nothing that bounds the depth.  The first argument
  is the number of nested calls available; \<open>None\<close> says that they were used up before
  any call returned or raised.
\<close>

fun getDsIndex :: "nat \<Rightarrow> traveller \<Rightarrow> int \<Rightarrow> (error + int) option" where
  "getDsIndex 0 t i = None"
| "getDsIndex (Suc depth) t i =
     (case down t i of
        Inl err \<Rightarrow> Some (Inl err)
      | Inr ds \<Rightarrow>
     (case getNode t ds of
        Inl err \<Rightarrow> Some (Inl err)
      | Inr (Basin b) \<Rightarrow> Some (Inr ds)
      | Inr (Confluence cf) \<Rightarrow>
          if isOut cf = True then Some (Inr (t_endSentinel t))
          else getDsIndex depth t ds))"

text \<open>
  Modelled from the spec: a Traveller over a connected catchment.  \<open>getNode\<close> is the direct
  lookup of a vertex and \<open>down\<close> the single set entry of the vertex's row of the
  downstream table, or the end sentinel when the row has none; an index outside
  \<open>[0, vertexCount())\<close> fails with \<open>IndexOutOfRange\<close>.
\<close>

definition Traveller :: "catchment \<Rightarrow> traveller" where
  "Traveller c =
     \<lparr> getNode = (\<lambda>i. if 0 \<le> i \<and> i < int (length (vertices c))
                       then Inr (vertices c ! nat i) else Inl IndexOutOfRange),
       down = (\<lambda>i. if 0 \<le> i \<and> i < int (length (vertices c)) \<and>
                        nat i < length (incidenceMatrixDS c)
                     then (case filter (\<lambda>w. w \<noteq> endSentinel c) (incidenceMatrixDS c ! nat i) of
                             [] \<Rightarrow> Inr (endSentinel c)
                           | w # ws \<Rightarrow> Inr w)
                     else Inl IndexOutOfRange),
       t_endSentinel = endSentinel c \<rparr>"

section \<open>Constructors\<close>

text \<open>\<open>Node(name, x, y)\<close>, \<open>Confluence(name, x, y, out)\<close> and
  \<open>Basin(name, x, y, area, fi)\<close> as the Builder calls them.\<close>

definition Node_init :: "string \<Rightarrow> real \<Rightarrow> real \<Rightarrow> node" where
  "Node_init name x y = \<lparr> node_name = name, node_x = x, node_y = y \<rparr>"

definition Confluence_init :: "string \<Rightarrow> real \<Rightarrow> real \<Rightarrow> bool \<Rightarrow> confluence" where
  "Confluence_init name x y out = \<lparr> node_name = name, node_x = x, node_y = y, isOut = out \<rparr>"

definition Basin_init :: "string \<Rightarrow> real \<Rightarrow> real \<Rightarrow> real \<Rightarrow> real \<Rightarrow> basin" where
  "Basin_init name x y km2 imperv = \<lparr> node_name = name, node_x = x, node_y = y, area = km2, fi = imperv \<rparr>"

text \<open>\<open>Reach(name, vector, reachType, slope)\<close>\<close>

definition Reach_init :: "string \<Rightarrow> node list \<Rightarrow> ReachType \<Rightarrow> real \<Rightarrow> reach" where
  "Reach_init name pts rtype s = \<lparr> reach_name = name, vector = pts, reachType = rtype, slope = s \<rparr>"

section \<open>Properties of the lookups\<close>

text \<open>Index \<open>i\<close> is the vertex of least distance to \<open>p\<close>, the first such in list
  order.\<close>

definition first_closest :: "vertex list \<Rightarrow> real \<times> real \<Rightarrow> nat \<Rightarrow> bool" where
  "first_closest vs p i \<longleftrightarrow>
     i < length vs \<and>
     (\<forall>j<length vs. distance_to (vs ! i) p \<le> distance_to (vs ! j) p) \<and>
     (\<forall>j<i. distance_to (vs ! i) p < distance_to (vs ! j) p)"

text \<open>Index \<open>i\<close> is the first vertex in list order whose distance to \<open>p\<close> is within
  the tolerance.\<close>

definition first_within :: "vertex list \<Rightarrow> real \<times> real \<Rightarrow> real \<Rightarrow> nat \<Rightarrow> bool" where
  "first_within vs p tol i \<longleftrightarrow>
     i < length vs \<and> distance_to (vs ! i) p \<le> tol \<and>
     (\<forall>j<i. tol < distance_to (vs ! j) p)"

section \<open>Example catchments\<close>

text \<open>Two confluences 0.05 apart on the x axis, the second one the outlet.\<close>

definition near_pair :: catchment where
  "near_pair = Catchment_init
     (Some [Confluence_init ''J'' (1 / 20) 0 False, Confluence_init ''O'' 0 0 True]) None None"


section \<open>Properties of the incidence tables\<close>

text \<open>The index \<open>connect\<close> binds the start and the end of an edge to: the closest vertex
  within the default tolerance of \<open>_find_closest_vertex\<close>, or -1.\<close>

definition start_index :: "catchment \<Rightarrow> reach \<Rightarrow> int" where
  "start_index c edge =
     (case getStart edge of
        Inl err \<Rightarrow> - 1
      | Inr nd \<Rightarrow> find_closest_vertex c nd closest_vertex_tol)"

definition end_index :: "catchment \<Rightarrow> reach \<Rightarrow> int" where
  "end_index c edge =
     (case getEnd edge of
        Inl err \<Rightarrow> - 1
      | Inr nd \<Rightarrow> find_closest_vertex c nd closest_vertex_tol)"

text \<open>Index \<open>i\<close> is the first Confluence flagged as outlet, in list order.\<close>

definition first_outlet :: "vertex list \<Rightarrow> nat \<Rightarrow> bool" where
  "first_outlet vs i \<longleftrightarrow>
     i < length vs \<and> is_out_confluence (vs ! i) \<and> (\<forall>j<i. \<not> is_out_confluence (vs ! j))"

text \<open>A matrix of \<open>num_vertices\<close> rows and \<open>num_edges\<close> columns.\<close>

definition has_shape :: "nat \<Rightarrow> nat \<Rightarrow> matrix \<Rightarrow> bool" where
  "has_shape num_vertices num_edges m \<longleftrightarrow>
     length m = num_vertices \<and> (\<forall>row\<in>set m. length row = num_edges)"

section \<open>More example catchments\<close>

text \<open>Two confluences flagged as outlet, and a basin draining to the first.\<close>

definition two_outlets :: catchment where
  "two_outlets = Catchment_init
     (Some [Confluence_init ''O1'' 0 0 True, Confluence_init ''O2'' 2 0 True])
     (Some [Basin_init ''B'' 1 0 1 0])
     (Some [Reach_init ''r'' [Node_init [] 1 0, Node_init [] 0 0] NATURAL 0])"

text \<open>A basin from which two reaches start: one to the outlet, one to a junction.\<close>

definition fork :: catchment where
  "fork = Catchment_init
     (Some [Confluence_init ''O'' 0 0 True, Confluence_init ''J'' 2 0 False])
     (Some [Basin_init ''B'' 1 0 1 0])
     (Some [Reach_init ''r0'' [Node_init [] 1 0, Node_init [] 0 0] NATURAL 0,
            Reach_init ''r1'' [Node_init [] 1 0, Node_init [] 2 0] NATURAL 0])"

text \<open>An outlet, and a reach between two basins that no reach joins to the outlet.\<close>

definition detached :: catchment where
  "detached = Catchment_init
     (Some [Confluence_init ''O'' 0 0 True])
     (Some [Basin_init ''A'' 10 0 1 0, Basin_init ''B'' 20 0 1 0])
     (Some [Reach_init ''r'' [Node_init [] 10 0, Node_init [] 20 0] NATURAL 0])"

text \<open>A reach from a basin to the outlet whose first point is 0.05 off the basin.\<close>

definition offset_edge :: catchment where
  "offset_edge = Catchment_init
     (Some [Confluence_init ''O'' 0 0 True])
     (Some [Basin_init ''A'' 1 0 1 0])
     (Some [Reach_init ''r'' [Node_init [] (21 / 20) 0, Node_init [] 0 0] NATURAL 0])"

text \<open>A reach from a basin to the outlet, and a junction 0.05 off the basin that comes
  before both in the vertex list.  J = 0, O = 1, B = 2.\<close>

definition crowded :: catchment where
  "crowded = Catchment_init
     (Some [Confluence_init ''J'' (21 / 20) 0 False, Confluence_init ''O'' 0 0 True])
     (Some [Basin_init ''B'' 1 0 1 0])
     (Some [Reach_init ''r'' [Node_init [] 1 0, Node_init [] 0 0] NATURAL 0])"

text \<open>No outlet, and a reach without points.\<close>

definition no_outlet_empty_reach :: catchment where
  "no_outlet_empty_reach = Catchment_init
     (Some [Confluence_init ''J'' 0 0 False]) None (Some [Reach_init ''r'' [] NATURAL 0])"

text \<open>A basin draining to a confluence that is not flagged as outlet.\<close>

definition no_outlet :: catchment where
  "no_outlet = Catchment_init
     (Some [Confluence_init ''J'' 0 0 False])
     (Some [Basin_init ''B'' 1 0 1 0])
     (Some [Reach_init ''r'' [Node_init [] 1 0, Node_init [] 0 0] NATURAL 0])"

section \<open>Properties of the downstream walk\<close>

text \<open>The vertices \<open>vs\<close> are the ones met from \<open>i\<close> by following \<open>down\<close> again and
  again.\<close>

fun down_walk :: "traveller \<Rightarrow> int \<Rightarrow> int list \<Rightarrow> bool" where
  "down_walk t i [] = True"
| "down_walk t i (v # vs) = (down t i = Inr v \<and> down_walk t v vs)"

text \<open>What the traveller has at an index: a Basin, a Confluence that is not the outlet
  (a pure junction), or the outlet.\<close>

definition is_basin_at :: "traveller \<Rightarrow> int \<Rightarrow> bool" where
  "is_basin_at t v = (case getNode t v of Inr (Basin b) \<Rightarrow> True | _ \<Rightarrow> False)"

definition pure_junction :: "traveller \<Rightarrow> int \<Rightarrow> bool" where
  "pure_junction t v = (case getNode t v of Inr (Confluence cf) \<Rightarrow> \<not> isOut cf | _ \<Rightarrow> False)"

definition is_outlet_at :: "traveller \<Rightarrow> int \<Rightarrow> bool" where
  "is_outlet_at t v = (case getNode t v of Inr (Confluence cf) \<Rightarrow> isOut cf | _ \<Rightarrow> False)"

section \<open>Example travellers\<close>

text \<open>The chain Basin, Confluence, Confluence, Basin, Outlet along the x axis.  The
  confluences come first in the vertex list: J1 = 0, J2 = 1, O = 2, B1 = 3, B2 = 4.\<close>

definition chain :: catchment where
  "chain = Catchment_init
     (Some [Confluence_init ''J1'' 3 0 False, Confluence_init ''J2'' 2 0 False,
            Confluence_init ''O'' 0 0 True])
     (Some [Basin_init ''B1'' 4 0 1 0, Basin_init ''B2'' 1 0 1 0])
     (Some [Reach_init ''r0'' [Node_init [] 4 0, Node_init [] 3 0] NATURAL 0,
            Reach_init ''r1'' [Node_init [] 3 0, Node_init [] 2 0] NATURAL 0,
            Reach_init ''r2'' [Node_init [] 2 0, Node_init [] 1 0] NATURAL 0,
            Reach_init ''r3'' [Node_init [] 1 0, Node_init [] 0 0] NATURAL 0])"

definition chain_connected :: catchment where
  "chain_connected =
     chain\<lparr>out_node_index := 2,
           incidenceMatrixDS :=
             [[- 1, 1, - 1, - 1], [- 1, - 1, 4, - 1], [- 1, - 1, - 1, - 1],
              [0, - 1, - 1, - 1], [- 1, - 1, - 1, 2]],
           incidenceMatrixUS :=
             [[3, - 1, - 1, - 1], [- 1, 0, - 1, - 1], [- 1, - 1, - 1, 4],
              [- 1, - 1, - 1, - 1], [- 1, - 1, 1, - 1]]\<rparr>"

text \<open>A basin draining into two confluences whose reaches lead to each other; the
  outlet is not joined to them.  O = 0, J0 = 1, J1 = 2, B = 3.\<close>

definition cycle :: catchment where
  "cycle = Catchment_init
     (Some [Confluence_init ''O'' 0 0 True, Confluence_init ''J0'' 1 0 False,
            Confluence_init ''J1'' 2 0 False])
     (Some [Basin_init ''B'' 3 0 1 0])
     (Some [Reach_init ''r0'' [Node_init [] 3 0, Node_init [] 1 0] NATURAL 0,
            Reach_init ''r1'' [Node_init [] 1 0, Node_init [] 2 0] NATURAL 0,
            Reach_init ''r2'' [Node_init [] 2 0, Node_init [] 1 0] NATURAL 0])"

definition cycle_connected :: catchment where
  "cycle_connected =
     cycle\<lparr>out_node_index := 0,
           incidenceMatrixDS :=
             [[- 1, - 1, - 1], [- 1, 2, - 1], [- 1, - 1, 1], [1, - 1, - 1]],
           incidenceMatrixUS :=
             [[- 1, - 1, - 1], [3, - 1, 2], [- 1, 1, - 1], [- 1, - 1, - 1]]\<rparr>"
section \<open>Termination of the breadth-first propagation\<close>

text \<open>Marking a cell lowers the number of unvisited cells by one.\<close>

lemma filter_zero_update:
  "k < length row \<Longrightarrow> row ! k = (0::int) \<Longrightarrow>
   Suc (length (filter (\<lambda>a. a = 0) (row[k := 1]))) = length (filter (\<lambda>a. a = 0) row)"
proof (induction row arbitrary: k)
  case Nil
  then show ?case by simp
next
  case (Cons a row)
  then show ?case by (cases k) auto
qed

lemma sum_list_map_update:
  fixes f :: "'a \<Rightarrow> nat"
  shows "r < length m \<Longrightarrow> sum_list (map f (m[r := x])) + f (m ! r) = sum_list (map f m) + f x"
proof (induction m arbitrary: r)
  case Nil
  then show ?case by simp
next
  case (Cons a m)
  then show ?case by (cases r) (auto simp: add.assoc add.left_commute)
qed

lemma py_index_less: "py_index n i = Inr k \<Longrightarrow> k < n"
  by (auto simp: py_index_def split: if_splits)

lemma mat_set_zero_cells:
  assumes "mat_get m i j = Inr 0" and "mat_set m i j 1 = Inr m'"
  shows "Suc (zero_cells m') = zero_cells m"
proof -
  from assms obtain r k where r: "py_index (length m) i = Inr r"
    and k: "py_index (length (m ! r)) j = Inr k"
    and z: "m ! r ! k = 0" and m': "m' = m[r := (m ! r)[k := 1]]"
    by (auto simp: mat_get_def mat_set_def split: sum.splits)
  have rl: "r < length m" and kl: "k < length (m ! r)"
    using r k by (auto dest: py_index_less)
  let ?f = "\<lambda>row. length (filter (\<lambda>a. a = (0::int)) row)"
  have "sum_list (map ?f m') + ?f (m ! r) = sum_list (map ?f m) + ?f ((m ! r)[k := 1])"
    unfolding m' using rl by (rule sum_list_map_update)
  moreover have "Suc (?f ((m ! r)[k := 1])) = ?f (m ! r)"
    using kl z by (rule filter_zero_update)
  ultimately show ?thesis by (simp add: zero_cells_def)
qed

lemma propagate_edges_measure_aux:
  "propagate_edges c tag endpoint cm cur es (queue, colour, im) = Inr st' \<Longrightarrow>
   bfs_measure st' \<le> bfs_measure (queue, colour, im)"
proof (induction es arbitrary: queue colour im st')
  case Nil
  then show ?case by simp
next
  case (Cons edge_idx rest)
  have step: "bfs_measure st' \<le> bfs_measure (q, col, m)"
    if "propagate_edges c tag endpoint cm cur rest (q, col, m) = Inr st'" for q col m
    using that by (rule Cons.IH)
  show ?case
    using Cons.prems
    by (auto simp: bfs_measure_def Let_def split: sum.splits if_splits
        dest!: mat_set_zero_cells step)
qed

lemma propagate_edges_measure:
  "propagate_edges c tag endpoint cm cur es st = Inr st' \<Longrightarrow> bfs_measure st' \<le> bfs_measure st"
  by (cases st) (auto dest: propagate_edges_measure_aux)

termination bfs
proof (relation "measure (\<lambda>(c, tag, endpoint, cm, ne, st). bfs_measure st)")
  show "wf (measure (\<lambda>(c, tag, endpoint, cm, ne, st). bfs_measure st))" by simp
next
  fix c :: catchment and tag :: int and endpoint :: "reach \<Rightarrow> error + node"
    and cm :: matrix and ne :: nat and cur inc :: int and queue :: "(int \<times> int) list"
    and colour im :: matrix and st :: bfs_state
  assume "propagate_edges c tag endpoint cm cur (edge_range ne) (queue, colour, im) = Inr st"
  then have "bfs_measure st \<le> bfs_measure (queue, colour, im)"
    by (rule propagate_edges_measure)
  then show "((c, tag, endpoint, cm, ne, st),
              (c, tag, endpoint, cm, ne, (cur, inc) # queue, colour, im))
             \<in> measure (\<lambda>(c, tag, endpoint, cm, ne, st). bfs_measure st)"
    by (simp add: bfs_measure_def split: prod.splits)
qed


section \<open>Evaluation on the axis\<close>

lemma hypot_axis [simp]: "hypot a 0 = \<bar>a\<bar>"
  by (simp add: hypot_def)

lemma distance_to_Confluence_init [simp]:
  "distance_to (Confluence (Confluence_init name a 0 out)) (b, 0) = \<bar>a - b\<bar>"
  by (simp add: distance_to_def coordinates_def Confluence_init_def)

lemma distance_to_Basin_init [simp]:
  "distance_to (Basin (Basin_init name a 0 km2 imperv)) (b, 0) = \<bar>a - b\<bar>"
  by (simp add: distance_to_def coordinates_def Basin_init_def)

lemma coordinates_Node_init [simp]: "coordinates (Node_init name a b) = (a, b)"
  by (simp add: coordinates_def Node_init_def)

lemma vertices_near_pair:
  "vertices near_pair = [Confluence (Confluence_init ''J'' (1 / 20) 0 False), Confluence (Confluence_init ''O'' 0 0 True)]"
  by (simp add: near_pair_def Catchment_init_def or_empty_def)

lemma getStart_Reach_init [simp]: "getStart (Reach_init name (p # ps) rtype s) = Inr p"
  by (simp add: getStart_def Reach_init_def)

lemma getEnd_Reach_init [simp]: "getEnd (Reach_init name (p # ps) rtype s) = Inr (last (p # ps))"
  by (simp add: getEnd_def Reach_init_def)

lemma isOut_Confluence_init [simp]: "isOut (Confluence_init name a b out) = out"
  by (simp add: Confluence_init_def)

lemmas eval_simps =
  Catchment_init_def or_empty_def connect_def find_out_node_def np_full_def np_zeros_def
  find_closest_vertex_def closest_vertex_tol_def mat_set_def mat_get_def py_index_def
  list_get_def Let_def eval_nat_numeral

section \<open>Closest vertex\<close>

lemma first_closest_head:
  "\<forall>j<length vs. distance_to v p \<le> distance_to (vs ! j) p \<Longrightarrow> first_closest (v # vs) p 0"
  by (auto simp: first_closest_def nth_Cons split: nat.splits)

lemma first_closest_tail:
  "first_closest vs p i \<Longrightarrow> distance_to (vs ! i) p < distance_to v p \<Longrightarrow>
   first_closest (v # vs) p (Suc i)"
  by (auto simp: first_closest_def nth_Cons split: nat.splits)

lemma closest_loop_Some:
  "(closest_loop vs p k (Some m, ci) = (Some m, ci) \<and>
      (\<forall>j<length vs. m \<le> distance_to (vs ! j) p)) \<or>
   (\<exists>i. first_closest vs p i \<and> distance_to (vs ! i) p < m \<and>
      closest_loop vs p k (Some m, ci) = (Some (distance_to (vs ! i) p), k + int i))"
proof (induction vs arbitrary: k m ci)
  case Nil
  then show ?case by simp
next
  case (Cons v vs)
  let ?d = "distance_to v p"
  show ?case
  proof (cases "?d < m")
    case True
    from Cons.IH [of "k + 1" ?d k] show ?thesis
    proof
      assume "closest_loop vs p (k + 1) (Some ?d, k) = (Some ?d, k) \<and>
        (\<forall>j<length vs. ?d \<le> distance_to (vs ! j) p)"
      with True first_closest_head [of vs v p] have
        "first_closest (v # vs) p 0 \<and> distance_to ((v # vs) ! 0) p < m \<and>
         closest_loop (v # vs) p k (Some m, ci) = (Some (distance_to ((v # vs) ! 0) p), k + int 0)"
        by simp
      then show ?thesis by blast
    next
      assume "\<exists>i. first_closest vs p i \<and> distance_to (vs ! i) p < ?d \<and>
        closest_loop vs p (k + 1) (Some ?d, k) = (Some (distance_to (vs ! i) p), k + 1 + int i)"
      then obtain i where "first_closest vs p i" "distance_to (vs ! i) p < ?d"
        "closest_loop vs p (k + 1) (Some ?d, k) = (Some (distance_to (vs ! i) p), k + 1 + int i)"
        by blast
      with True first_closest_tail [of vs p i v] have
        "first_closest (v # vs) p (Suc i) \<and> distance_to ((v # vs) ! Suc i) p < m \<and>
         closest_loop (v # vs) p k (Some m, ci) =
           (Some (distance_to ((v # vs) ! Suc i) p), k + int (Suc i))"
        by simp
      then show ?thesis by blast
    qed
  next
    case False
    from Cons.IH [of "k + 1" m ci] show ?thesis
    proof
      assume "closest_loop vs p (k + 1) (Some m, ci) = (Some m, ci) \<and>
        (\<forall>j<length vs. m \<le> distance_to (vs ! j) p)"
      with False have "closest_loop (v # vs) p k (Some m, ci) = (Some m, ci) \<and>
        (\<forall>j<length (v # vs). m \<le> distance_to ((v # vs) ! j) p)"
        by (auto simp: nth_Cons split: nat.splits)
      then show ?thesis by blast
    next
      assume "\<exists>i. first_closest vs p i \<and> distance_to (vs ! i) p < m \<and>
        closest_loop vs p (k + 1) (Some m, ci) = (Some (distance_to (vs ! i) p), k + 1 + int i)"
      then obtain i where "first_closest vs p i" "distance_to (vs ! i) p < m"
        "closest_loop vs p (k + 1) (Some m, ci) = (Some (distance_to (vs ! i) p), k + 1 + int i)"
        by blast
      with False first_closest_tail [of vs p i v] have
        "first_closest (v # vs) p (Suc i) \<and> distance_to ((v # vs) ! Suc i) p < m \<and>
         closest_loop (v # vs) p k (Some m, ci) =
           (Some (distance_to ((v # vs) ! Suc i) p), k + int (Suc i))"
        by simp
      then show ?thesis by blast
    qed
  qed
qed

lemma closest_loop_None:
  assumes "vs \<noteq> []"
  shows "\<exists>i. first_closest vs p i \<and>
     closest_loop vs p k (None, ci) = (Some (distance_to (vs ! i) p), k + int i)"
proof -
  from assms obtain v rest where vs: "vs = v # rest" by (cases vs) auto
  let ?d = "distance_to v p"
  from closest_loop_Some [of rest p "k + 1" ?d k] show ?thesis
  proof
    assume "closest_loop rest p (k + 1) (Some ?d, k) = (Some ?d, k) \<and>
      (\<forall>j<length rest. ?d \<le> distance_to (rest ! j) p)"
    with first_closest_head [of rest v p] have
      "first_closest vs p 0 \<and>
       closest_loop vs p k (None, ci) = (Some (distance_to (vs ! 0) p), k + int 0)"
      by (simp add: vs)
    then show ?thesis by blast
  next
    assume "\<exists>i. first_closest rest p i \<and> distance_to (rest ! i) p < ?d \<and>
      closest_loop rest p (k + 1) (Some ?d, k) = (Some (distance_to (rest ! i) p), k + 1 + int i)"
    then obtain i where "first_closest rest p i" "distance_to (rest ! i) p < ?d"
      "closest_loop rest p (k + 1) (Some ?d, k) = (Some (distance_to (rest ! i) p), k + 1 + int i)"
      by blast
    with first_closest_tail [of rest p i v] have
      "first_closest vs p (Suc i) \<and>
       closest_loop vs p k (None, ci) = (Some (distance_to (vs ! Suc i) p), k + int (Suc i))"
      by (simp add: vs)
    then show ?thesis by blast
  qed
qed

lemma find_closest_vertex_cases:
  "(find_closest_vertex c nd tol = - 1 \<and>
      (\<forall>j<length (vertices c). tol < distance_to (vertices c ! j) (coordinates nd))) \<or>
   (\<exists>i. first_closest (vertices c) (coordinates nd) i \<and>
      distance_to (vertices c ! i) (coordinates nd) \<le> tol \<and>
      find_closest_vertex c nd tol = int i)"
proof (cases "vertices c = []")
  case True
  then show ?thesis by (simp add: find_closest_vertex_def)
next
  case False
  from closest_loop_None [OF False, of "coordinates nd" 0 "- 1"]
  obtain i where i: "first_closest (vertices c) (coordinates nd) i"
    and loop: "closest_loop (vertices c) (coordinates nd) 0 (None, - 1) =
      (Some (distance_to (vertices c ! i) (coordinates nd)), int i)"
    by auto
  show ?thesis
  proof (cases "tol < distance_to (vertices c ! i) (coordinates nd)")
    case True
    with i have "\<forall>j<length (vertices c). tol < distance_to (vertices c ! j) (coordinates nd)"
      by (fastforce simp: first_closest_def)
    with True loop show ?thesis by (simp add: find_closest_vertex_def)
  next
    case False
    with i loop show ?thesis by (auto simp: find_closest_vertex_def)
  qed
qed

text \<open>
  C7.  \<open>_find_closest_vertex\<close>: when some vertex lies within the tolerance (a distance
  equal to the tolerance counts), the result is the index of a vertex of least distance
  to the node, the first such in list order, and that vertex is within the tolerance.
  When every vertex is farther away than the tolerance, and so also when there is no
  vertex, the result is -1.
\<close>

theorem closest_vertex_lookup:
  "((\<exists>j<length (vertices c). distance_to (vertices c ! j) (coordinates nd) \<le> tol) \<longrightarrow>
      (\<exists>i. first_closest (vertices c) (coordinates nd) i \<and>
           distance_to (vertices c ! i) (coordinates nd) \<le> tol \<and>
           find_closest_vertex c nd tol = int i)) \<and>
   ((\<forall>j<length (vertices c). tol < distance_to (vertices c ! j) (coordinates nd)) \<longrightarrow>
      find_closest_vertex c nd tol = - 1)"
  using find_closest_vertex_cases [of c nd tol] by (auto simp: first_closest_def)

theorem closest_vertex_lookup_witness:
  "distance_to (vertices near_pair ! 1) (coordinates (Node_init [] 0 0)) \<le> 1 / 10 \<and>
   find_closest_vertex near_pair (Node_init [] 0 0) (1 / 10) = 1 \<and>
   1 / 10 < distance_to (vertices near_pair ! 0) (coordinates (Node_init [] 5 0)) \<and>
   1 / 10 < distance_to (vertices near_pair ! 1) (coordinates (Node_init [] 5 0)) \<and>
   find_closest_vertex near_pair (Node_init [] 5 0) (1 / 10) = - 1"
proof -
  have near: "distance_to (vertices near_pair ! 1) (coordinates (Node_init [] 0 0)) \<le> 1 / 10"
    by (simp add: vertices_near_pair)
  then have "\<exists>j<length (vertices near_pair).
       distance_to (vertices near_pair ! j) (coordinates (Node_init [] 0 0)) \<le> 1 / 10"
    by (intro exI [of _ 1]) (simp add: vertices_near_pair)
  with closest_vertex_lookup [of near_pair "Node_init [] 0 0" "1 / 10"]
  obtain i where i: "first_closest (vertices near_pair) (coordinates (Node_init [] 0 0)) i"
    and r: "find_closest_vertex near_pair (Node_init [] 0 0) (1 / 10) = int i"
    by blast
  from i have len: "i < length (vertices near_pair)"
    and least: "\<forall>j<length (vertices near_pair).
      distance_to (vertices near_pair ! i) (coordinates (Node_init [] 0 0))
        \<le> distance_to (vertices near_pair ! j) (coordinates (Node_init [] 0 0))"
    by (simp_all add: first_closest_def)
  from least [rule_format, of 1]
  have "distance_to (vertices near_pair ! i) (coordinates (Node_init [] 0 0)) \<le> 0"
    by (simp add: vertices_near_pair)
  with len have "i = 1"
    by (cases i) (simp_all add: vertices_near_pair)
  with r have found: "find_closest_vertex near_pair (Node_init [] 0 0) (1 / 10) = 1"
    by simp
  have far0: "1 / 10 < distance_to (vertices near_pair ! 0) (coordinates (Node_init [] 5 0))"
    and far1: "1 / 10 < distance_to (vertices near_pair ! 1) (coordinates (Node_init [] 5 0))"
    by (simp_all add: vertices_near_pair)
  then have "\<forall>j<length (vertices near_pair).
       1 / 10 < distance_to (vertices near_pair ! j) (coordinates (Node_init [] 5 0))"
    by (simp add: vertices_near_pair less_Suc_eq)
  with closest_vertex_lookup [of near_pair "Node_init [] 5 0" "1 / 10"]
  have "find_closest_vertex near_pair (Node_init [] 5 0) (1 / 10) = - 1"
    by blast
  with near found far0 far1 show ?thesis by blast
qed

section \<open>Lookup by coordinates\<close>

lemma first_closest_unique:
  assumes "first_closest vs p i" and "first_closest vs p j"
  shows "i = j"
proof (rule ccontr)
  assume "i \<noteq> j"
  then consider "i < j" | "j < i" by linarith
  then show False
  proof cases
    case 1
    with assms show False by (fastforce simp: first_closest_def)
  next
    case 2
    with assms show False by (fastforce simp: first_closest_def)
  qed
qed

lemma first_within_head:
  "distance_to v p \<le> tol \<Longrightarrow> first_within (v # vs) p tol 0"
  by (simp add: first_within_def)

lemma first_within_tail:
  "first_within vs p tol i \<Longrightarrow> tol < distance_to v p \<Longrightarrow> first_within (v # vs) p tol (Suc i)"
  by (auto simp: first_within_def nth_Cons split: nat.splits)

lemma first_within_unique:
  assumes "first_within vs p tol i" and "first_within vs p tol j"
  shows "i = j"
proof (rule ccontr)
  assume "i \<noteq> j"
  then consider "i < j" | "j < i" by linarith
  then show False
  proof cases
    case 1
    with assms show False by (fastforce simp: first_within_def)
  next
    case 2
    with assms show False by (fastforce simp: first_within_def)
  qed
qed

lemma coordinates_loop_cases:
  "(coordinates_loop vs p tol k = - 1 \<and> (\<forall>j<length vs. tol < distance_to (vs ! j) p)) \<or>
   (\<exists>i. first_within vs p tol i \<and> coordinates_loop vs p tol k = k + int i)"
proof (induction vs arbitrary: k)
  case Nil
  then show ?case by simp
next
  case (Cons v vs)
  show ?case
  proof (cases "distance_to v p \<le> tol")
    case True
    then have "first_within (v # vs) p tol 0 \<and> coordinates_loop (v # vs) p tol k = k + int 0"
      by (simp add: first_within_head)
    then show ?thesis by blast
  next
    case False
    from Cons.IH [of "k + 1"] show ?thesis
    proof
      assume "coordinates_loop vs p tol (k + 1) = - 1 \<and> (\<forall>j<length vs. tol < distance_to (vs ! j) p)"
      with False have "coordinates_loop (v # vs) p tol k = - 1 \<and>
        (\<forall>j<length (v # vs). tol < distance_to ((v # vs) ! j) p)"
        by (auto simp: nth_Cons split: nat.splits)
      then show ?thesis by blast
    next
      assume "\<exists>i. first_within vs p tol i \<and> coordinates_loop vs p tol (k + 1) = k + 1 + int i"
      then obtain i where "first_within vs p tol i"
        "coordinates_loop vs p tol (k + 1) = k + 1 + int i" by blast
      with False first_within_tail [of vs p tol i v]
      have "first_within (v # vs) p tol (Suc i) \<and>
        coordinates_loop (v # vs) p tol k = k + int (Suc i)"
        by simp
      then show ?thesis by blast
    qed
  qed
qed

lemma find_vertex_by_coordinates_cases:
  "(find_vertex_by_coordinates c p tol = - 1 \<and>
      (\<forall>j<length (vertices c). tol < distance_to (vertices c ! j) p)) \<or>
   (\<exists>i. first_within (vertices c) p tol i \<and> find_vertex_by_coordinates c p tol = int i)"
  using coordinates_loop_cases [of "vertices c" p tol 0]
  by (simp add: find_vertex_by_coordinates_def)

text \<open>
  C8 as stated fails: with a vertex at distance 0.05 listed before a vertex at distance 0
  and tolerance 0.1, \<open>_find_vertex_by_coordinates\<close> returns the first (index 0) and
  \<open>_find_closest_vertex\<close> the closest (index 1).
\<close>

theorem relookup_differs_counterexample:
  "find_vertex_by_coordinates near_pair (coordinates (Node_init [] 0 0)) (1 / 10) = 0 \<and>
   find_closest_vertex near_pair (Node_init [] 0 0) (1 / 10) = 1"
  by (simp add: find_vertex_by_coordinates_def find_closest_vertex_def vertices_near_pair)

text \<open>
  C8, amended.  \<open>_find_vertex_by_coordinates\<close> returns the first vertex in list order
  whose distance is within the tolerance, which need not be the closest one.  It finds no
  vertex on exactly the inputs on which \<open>_find_closest_vertex\<close> finds none, and the two
  results are equal when the first vertex within the tolerance is the first closest one.
\<close>

theorem relookup_first_within:
  "(find_vertex_by_coordinates c (coordinates nd) tol = - 1 \<longleftrightarrow>
      find_closest_vertex c nd tol = - 1) \<and>
   (\<forall>i. first_within (vertices c) (coordinates nd) tol i \<longrightarrow>
      find_vertex_by_coordinates c (coordinates nd) tol = int i) \<and>
   (\<forall>i. first_within (vertices c) (coordinates nd) tol i \<and>
        first_closest (vertices c) (coordinates nd) i \<longrightarrow>
      find_closest_vertex c nd tol = find_vertex_by_coordinates c (coordinates nd) tol)"
proof -
  let ?vs = "vertices c" and ?p = "coordinates nd"
  have within: "find_vertex_by_coordinates c ?p tol = int i" if "first_within ?vs ?p tol i" for i
  proof -
    from that have "\<not> (\<forall>j<length ?vs. tol < distance_to (?vs ! j) ?p)"
      by (fastforce simp: first_within_def)
    with find_vertex_by_coordinates_cases [of c ?p tol] obtain i'
      where "first_within ?vs ?p tol i'" "find_vertex_by_coordinates c ?p tol = int i'"
      by blast
    with that first_within_unique show ?thesis by blast
  qed
  have closest: "find_closest_vertex c nd tol = int i"
    if "first_within ?vs ?p tol i" "first_closest ?vs ?p i" for i
  proof -
    from that have "\<not> (\<forall>j<length ?vs. tol < distance_to (?vs ! j) ?p)"
      by (fastforce simp: first_within_def)
    with find_closest_vertex_cases [of c nd tol] obtain i'
      where "first_closest ?vs ?p i'" "find_closest_vertex c nd tol = int i'"
      by blast
    with that first_closest_unique show ?thesis by blast
  qed
  have none: "find_vertex_by_coordinates c ?p tol = - 1 \<longleftrightarrow> find_closest_vertex c nd tol = - 1"
  proof -
    have a: "find_vertex_by_coordinates c ?p tol = - 1 \<longleftrightarrow>
        (\<forall>j<length ?vs. tol < distance_to (?vs ! j) ?p)"
      using find_vertex_by_coordinates_cases [of c ?p tol]
      by (fastforce simp: first_within_def)
    have b: "find_closest_vertex c nd tol = - 1 \<longleftrightarrow>
        (\<forall>j<length ?vs. tol < distance_to (?vs ! j) ?p)"
      using find_closest_vertex_cases [of c nd tol] by (fastforce simp: first_closest_def)
    from a b show ?thesis by simp
  qed
  have "find_closest_vertex c nd tol = find_vertex_by_coordinates c ?p tol"
    if "first_within ?vs ?p tol i \<and> first_closest ?vs ?p i" for i
    using that within [of i] closest [of i] by simp
  with within none show ?thesis by blast
qed

theorem relookup_first_within_witness:
  "find_vertex_by_coordinates near_pair (coordinates (Node_init [] 0 0)) (1 / 100) = 1 \<and>
   find_closest_vertex near_pair (Node_init [] 0 0) (1 / 100) = 1"
proof -
  have fw: "first_within (vertices near_pair) (coordinates (Node_init [] 0 0)) (1 / 100) 1"
    by (simp add: first_within_def vertices_near_pair)
  have fc: "first_closest (vertices near_pair) (coordinates (Node_init [] 0 0)) 1"
    by (simp add: first_closest_def vertices_near_pair less_Suc_eq)
  from fw fc relookup_first_within [of near_pair "Node_init [] 0 0" "1 / 100"]
  have "find_vertex_by_coordinates near_pair (coordinates (Node_init [] 0 0)) (1 / 100) = int 1"
    and "find_closest_vertex near_pair (Node_init [] 0 0) (1 / 100) =
      find_vertex_by_coordinates near_pair (coordinates (Node_init [] 0 0)) (1 / 100)"
    by blast+
  then show ?thesis by simp
qed

section \<open>The incidence loop of connect\<close>

lemma find_closest_vertex_range:
  "find_closest_vertex c nd tol = - 1 \<or>
   (0 \<le> find_closest_vertex c nd tol \<and> find_closest_vertex c nd tol < int (length (vertices c)))"
  using find_closest_vertex_cases [of c nd tol] by (auto simp: first_closest_def)

lemma has_shape_np_full: "has_shape V E (np_full V E x)"
  by (simp add: has_shape_def np_full_def)

lemma nth_np_full: "v < V \<Longrightarrow> j < E \<Longrightarrow> np_full V E x ! v ! j = x"
  by (simp add: np_full_def)

lemma has_shape_update:
  assumes "has_shape V E m"
  shows "has_shape V E (m[r := (m ! r)[k := x]])"
proof (cases "r < V")
  case True
  with assms have "length ((m ! r)[k := x]) = E" by (simp add: has_shape_def)
  with assms show ?thesis
    using set_update_subset_insert [of m r "(m ! r)[k := x]"] by (auto simp: has_shape_def)
next
  case False
  with assms show ?thesis by (simp add: has_shape_def list_update_beyond)
qed

lemma mat_set_in_range:
  assumes "has_shape V E m" and "0 \<le> i" and "i < int V" and "j < E"
  shows "mat_set m i (int j) x = Inr (m[nat i := (m ! nat i)[j := x]])"
proof -
  from assms have "nat i < length m" and "length (m ! nat i) = E"
    by (auto simp: has_shape_def)
  with assms show ?thesis by (simp add: mat_set_def py_index_def)
qed

lemma nth_mat_update:
  assumes "has_shape V E m" and "v < V" and "j < E"
  shows "m[r := (m ! r)[k := x]] ! v ! j = (if v = r \<and> j = k then x else m ! v ! j)"
proof -
  from assms have "v < length m" and "j < length (m ! v)" by (auto simp: has_shape_def)
  then show ?thesis by (cases "v = r") (auto simp: nth_list_update)
qed

lemma getStart_Inr: "vector e \<noteq> [] \<Longrightarrow> \<exists>nd. getStart e = Inr nd"
  by (cases "vector e") (auto simp: getStart_def)

lemma getEnd_Inr: "vector e \<noteq> [] \<Longrightarrow> \<exists>nd. getEnd e = Inr nd"
  by (cases "vector e") (auto simp: getEnd_def)

lemma getStart_Inl: "vector e = [] \<Longrightarrow> getStart e = Inl IndexError"
  by (simp add: getStart_def)

lemma start_index_range:
  "start_index c e = - 1 \<or> (0 \<le> start_index c e \<and> start_index c e < int (length (vertices c)))"
  using find_closest_vertex_range by (auto simp: start_index_def split: sum.splits)

lemma end_index_range:
  "end_index c e = - 1 \<or> (0 \<le> end_index c e \<and> end_index c e < int (length (vertices c)))"
  using find_closest_vertex_range by (auto simp: end_index_def split: sum.splits)

text \<open>One pass of the loop body of \<open>connect\<close> in terms of the two bound indices.\<close>

lemma incidence_loop_step:
  assumes "vector e \<noteq> []"
  shows "incidence_loop c (e # es) k (ds, us) =
     (if start_index c e \<noteq> - 1 \<and> end_index c e \<noteq> - 1
      then (case mat_set ds (start_index c e) k (end_index c e) of
              Inl err \<Rightarrow> Inl err
            | Inr ds' \<Rightarrow>
                (case mat_set us (end_index c e) k (start_index c e) of
                   Inl err \<Rightarrow> Inl err
                 | Inr us' \<Rightarrow> incidence_loop c es (k + 1) (ds', us')))
      else incidence_loop c es (k + 1) (ds, us))"
proof -
  from assms obtain s t where "getStart e = Inr s" "getEnd e = Inr t"
    using getStart_Inr getEnd_Inr by blast
  then show ?thesis by (simp add: start_index_def end_index_def Let_def split: sum.splits)
qed

lemma incidence_loop_tables:
  assumes "has_shape (length (vertices c)) E ds" and "has_shape (length (vertices c)) E us"
    and "k + length es = E" and "\<forall>e\<in>set es. vector e \<noteq> []"
  shows "\<exists>ds' us'. incidence_loop c es (int k) (ds, us) = Inr (ds', us') \<and>
     has_shape (length (vertices c)) E ds' \<and> has_shape (length (vertices c)) E us' \<and>
     (\<forall>v<length (vertices c). \<forall>j<E.
        ds' ! v ! j =
          (if k \<le> j \<and> start_index c (es ! (j - k)) = int v \<and> end_index c (es ! (j - k)) \<noteq> - 1
           then end_index c (es ! (j - k)) else ds ! v ! j)) \<and>
     (\<forall>v<length (vertices c). \<forall>j<E.
        us' ! v ! j =
          (if k \<le> j \<and> end_index c (es ! (j - k)) = int v \<and> start_index c (es ! (j - k)) \<noteq> - 1
           then start_index c (es ! (j - k)) else us ! v ! j))"
  using assms
proof (induction es arbitrary: k ds us)
  case Nil
  then show ?case by simp
next
  case (Cons e es)
  let ?V = "length (vertices c)"
  let ?s = "start_index c e" and ?t = "end_index c e"
  from Cons.prems have ne: "vector e \<noteq> []" and kE: "k < E"
    and rest: "Suc k + length es = E" "\<forall>e\<in>set es. vector e \<noteq> []"
    by auto
  have nth_rest: "(e # es) ! (j - k) = es ! (j - Suc k)" if "Suc k \<le> j" for j
  proof -
    from that have "j - k = Suc (j - Suc k)" by arith
    then show ?thesis by simp
  qed
  show ?case
  proof (cases "?s \<noteq> - 1 \<and> ?t \<noteq> - 1")
    case True
    with start_index_range [of c e] end_index_range [of c e]
    have s: "0 \<le> ?s" "?s < int ?V" and t: "0 \<le> ?t" "?t < int ?V" by auto
    let ?ds1 = "ds[nat ?s := (ds ! nat ?s)[k := ?t]]"
    let ?us1 = "us[nat ?t := (us ! nat ?t)[k := ?s]]"
    have set_ds: "mat_set ds ?s (int k) ?t = Inr ?ds1"
      using Cons.prems(1) s kE by (rule mat_set_in_range)
    have set_us: "mat_set us ?t (int k) ?s = Inr ?us1"
      using Cons.prems(2) t kE by (rule mat_set_in_range)
    have sh: "has_shape ?V E ?ds1" "has_shape ?V E ?us1"
      using Cons.prems(1,2) by (simp_all add: has_shape_update)
    from Cons.IH [OF sh rest] obtain ds' us' where
      run: "incidence_loop c es (int (Suc k)) (?ds1, ?us1) = Inr (ds', us')"
      and sh': "has_shape ?V E ds'" "has_shape ?V E us'"
      and ds': "\<forall>v<?V. \<forall>j<E. ds' ! v ! j =
          (if Suc k \<le> j \<and> start_index c (es ! (j - Suc k)) = int v \<and>
              end_index c (es ! (j - Suc k)) \<noteq> - 1
           then end_index c (es ! (j - Suc k)) else ?ds1 ! v ! j)"
      and us': "\<forall>v<?V. \<forall>j<E. us' ! v ! j =
          (if Suc k \<le> j \<and> end_index c (es ! (j - Suc k)) = int v \<and>
              start_index c (es ! (j - Suc k)) \<noteq> - 1
           then start_index c (es ! (j - Suc k)) else ?us1 ! v ! j)"
      by blast
    have loop: "incidence_loop c (e # es) (int k) (ds, us) = Inr (ds', us')"
      unfolding incidence_loop_step [OF ne] using True set_ds set_us run
      by (simp add: add.commute)
    have d: "ds' ! v ! j =
          (if k \<le> j \<and> start_index c ((e # es) ! (j - k)) = int v \<and>
              end_index c ((e # es) ! (j - k)) \<noteq> - 1
           then end_index c ((e # es) ! (j - k)) else ds ! v ! j)" if "v < ?V" "j < E" for v j
    proof (cases "Suc k \<le> j")
      case True
      then show ?thesis
        using that ds' nth_rest [OF True] nth_mat_update [OF Cons.prems(1) that] by auto
    next
      case False
      then show ?thesis
        using that ds' nth_mat_update [OF Cons.prems(1) that] s \<open>?s \<noteq> - 1 \<and> ?t \<noteq> - 1\<close>
        by (cases "j = k") auto
    qed
    have u: "us' ! v ! j =
          (if k \<le> j \<and> end_index c ((e # es) ! (j - k)) = int v \<and>
              start_index c ((e # es) ! (j - k)) \<noteq> - 1
           then start_index c ((e # es) ! (j - k)) else us ! v ! j)" if "v < ?V" "j < E" for v j
    proof (cases "Suc k \<le> j")
      case True
      then show ?thesis
        using that us' nth_rest [OF True] nth_mat_update [OF Cons.prems(2) that] by auto
    next
      case False
      then show ?thesis
        using that us' nth_mat_update [OF Cons.prems(2) that] t \<open>?s \<noteq> - 1 \<and> ?t \<noteq> - 1\<close>
        by (cases "j = k") auto
    qed
    from loop sh' d u show ?thesis by blast
  next
    case False
    from Cons.IH [OF Cons.prems(1,2) rest] obtain ds' us' where
      run: "incidence_loop c es (int (Suc k)) (ds, us) = Inr (ds', us')"
      and sh': "has_shape ?V E ds'" "has_shape ?V E us'"
      and ds': "\<forall>v<?V. \<forall>j<E. ds' ! v ! j =
          (if Suc k \<le> j \<and> start_index c (es ! (j - Suc k)) = int v \<and>
              end_index c (es ! (j - Suc k)) \<noteq> - 1
           then end_index c (es ! (j - Suc k)) else ds ! v ! j)"
      and us': "\<forall>v<?V. \<forall>j<E. us' ! v ! j =
          (if Suc k \<le> j \<and> end_index c (es ! (j - Suc k)) = int v \<and>
              start_index c (es ! (j - Suc k)) \<noteq> - 1
           then start_index c (es ! (j - Suc k)) else us ! v ! j)"
      by blast
    have loop: "incidence_loop c (e # es) (int k) (ds, us) = Inr (ds', us')"
      unfolding incidence_loop_step [OF ne] using False run
      by (auto simp: add.commute)
    have d: "ds' ! v ! j =
          (if k \<le> j \<and> start_index c ((e # es) ! (j - k)) = int v \<and>
              end_index c ((e # es) ! (j - k)) \<noteq> - 1
           then end_index c ((e # es) ! (j - k)) else ds ! v ! j)" if "v < ?V" "j < E" for v j
    proof (cases "Suc k \<le> j")
      case True
      then show ?thesis using that ds' nth_rest [OF True] by auto
    next
      case nle: False
      then show ?thesis
        using that ds' False start_index_range [of c e] by (cases "j = k") auto
    qed
    have u: "us' ! v ! j =
          (if k \<le> j \<and> end_index c ((e # es) ! (j - k)) = int v \<and>
              start_index c ((e # es) ! (j - k)) \<noteq> - 1
           then start_index c ((e # es) ! (j - k)) else us ! v ! j)" if "v < ?V" "j < E" for v j
    proof (cases "Suc k \<le> j")
      case True
      then show ?thesis using that us' nth_rest [OF True] by auto
    next
      case nle: False
      then show ?thesis
        using that us' False end_index_range [of c e] by (cases "j = k") auto
    qed
    from loop sh' d u show ?thesis by blast
  qed
qed

section \<open>Outcomes of connect\<close>

lemma mat_set_error: "mat_set m i j x = Inl err \<Longrightarrow> err = IndexError"
  by (auto simp: mat_set_def py_index_def split: sum.splits if_splits)

lemma getStart_error: "getStart e = Inl err \<Longrightarrow> err = IndexError"
  by (auto simp: getStart_def split: list.splits)

lemma getEnd_error: "getEnd e = Inl err \<Longrightarrow> err = IndexError"
  by (auto simp: getEnd_def split: list.splits)

lemma connection_loop_error:
  "connection_loop c es k cm = Inl err \<Longrightarrow> err = IndexError"
proof (induction es arbitrary: k cm)
  case Nil
  then show ?case by simp
next
  case (Cons e es)
  then show ?case
    by (auto simp: Let_def split: sum.splits if_splits
        dest: mat_set_error getStart_error getEnd_error)
qed

lemma connection_loop_Inr_nonempty:
  "connection_loop c es k cm = Inr cm' \<Longrightarrow> \<forall>e\<in>set es. vector e \<noteq> []"
proof (induction es arbitrary: k cm)
  case Nil
  then show ?case by simp
next
  case (Cons e es)
  then show ?case
    by (auto simp: Let_def getStart_Inl split: sum.splits if_splits)
qed

lemma connection_loop_succeeds:
  assumes "has_shape (length (vertices c)) E cm" and "k + length es = E"
    and "\<forall>e\<in>set es. vector e \<noteq> []"
  shows "\<exists>cm'. connection_loop c es (int k) cm = Inr cm'"
  using assms
proof (induction es arbitrary: k cm)
  case Nil
  then show ?case by simp
next
  case (Cons e es)
  let ?V = "length (vertices c)"
  from Cons.prems have ne: "vector e \<noteq> []" and kE: "k < E"
    and rest: "Suc k + length es = E" "\<forall>e\<in>set es. vector e \<noteq> []"
    by auto
  from ne obtain s t where st: "getStart e = Inr s" "getEnd e = Inr t"
    using getStart_Inr getEnd_Inr by blast
  let ?s = "find_closest_vertex c s closest_vertex_tol"
  let ?t = "find_closest_vertex c t closest_vertex_tol"
  show ?case
  proof (cases "?s = - 1 \<or> ?t = - 1")
    case True
    from Cons.IH [OF Cons.prems(1) rest] obtain cm' where
      "connection_loop c es (int (Suc k)) cm = Inr cm'" by blast
    with True st show ?thesis by (auto simp: Let_def add.commute)
  next
    case False
    with find_closest_vertex_range [of c s closest_vertex_tol]
      find_closest_vertex_range [of c t closest_vertex_tol]
    have s: "0 \<le> ?s" "?s < int ?V" and t: "0 \<le> ?t" "?t < int ?V" by auto
    let ?cm1 = "cm[nat ?s := (cm ! nat ?s)[k := 1]]"
    let ?cm2 = "?cm1[nat ?t := (?cm1 ! nat ?t)[k := 2]]"
    have sh1: "has_shape ?V E ?cm1" using Cons.prems(1) by (rule has_shape_update)
    then have sh2: "has_shape ?V E ?cm2" by (rule has_shape_update)
    have set1: "mat_set cm ?s (int k) 1 = Inr ?cm1"
      using Cons.prems(1) s kE by (rule mat_set_in_range)
    have set2: "mat_set ?cm1 ?t (int k) 2 = Inr ?cm2"
      using sh1 t kE by (rule mat_set_in_range)
    from Cons.IH [OF sh2 rest] obtain cm' where
      "connection_loop c es (int (Suc k)) ?cm2 = Inr cm'" by blast
    with False st set1 set2 show ?thesis by (auto simp: Let_def add.commute)
  qed
qed

lemma incidence_loop_error:
  "incidence_loop c es k (ds, us) = Inl err \<Longrightarrow> err = IndexError"
proof (induction es arbitrary: k ds us)
  case Nil
  then show ?case by simp
next
  case (Cons e es)
  then show ?case
    by (auto simp: Let_def split: sum.splits if_splits
        dest: mat_set_error getStart_error getEnd_error)
qed

lemma out_node_loop_none:
  "\<forall>v\<in>set vs. \<not> is_out_confluence v \<Longrightarrow> out_node_loop vs k = Inl NoOutletFound"
  by (induction vs arbitrary: k) auto

lemma out_node_loop_error: "out_node_loop vs k = Inl err \<Longrightarrow> err = NoOutletFound"
  by (induction vs arbitrary: k) (auto split: if_splits)

lemma first_outlet_head: "is_out_confluence v \<Longrightarrow> first_outlet (v # vs) 0"
  by (simp add: first_outlet_def)

lemma first_outlet_tail:
  "first_outlet vs i \<Longrightarrow> \<not> is_out_confluence v \<Longrightarrow> first_outlet (v # vs) (Suc i)"
  by (auto simp: first_outlet_def nth_Cons split: nat.splits)

lemma first_outlet_unique:
  assumes "first_outlet vs i" and "first_outlet vs j"
  shows "i = j"
proof (rule ccontr)
  assume "i \<noteq> j"
  then consider "i < j" | "j < i" by linarith
  then show False
  proof cases
    case 1
    with assms show False by (auto simp: first_outlet_def)
  next
    case 2
    with assms show False by (auto simp: first_outlet_def)
  qed
qed

lemma out_node_loop_first:
  "\<exists>v\<in>set vs. is_out_confluence v \<Longrightarrow>
   \<exists>i. first_outlet vs i \<and> out_node_loop vs k = Inr (k + int i)"
proof (induction vs arbitrary: k)
  case Nil
  then show ?case by simp
next
  case (Cons v vs)
  show ?case
  proof (cases "is_out_confluence v")
    case True
    then have "first_outlet (v # vs) 0 \<and> out_node_loop (v # vs) k = Inr (k + int 0)"
      by (simp add: first_outlet_head)
    then show ?thesis by blast
  next
    case False
    with Cons.prems have "\<exists>v\<in>set vs. is_out_confluence v" by simp
    from Cons.IH [OF this, of "k + 1"] obtain i where
      "first_outlet vs i" "out_node_loop vs (k + 1) = Inr (k + 1 + int i)" by blast
    with False have "first_outlet (v # vs) (Suc i) \<and>
      out_node_loop (v # vs) k = Inr (k + int (Suc i))"
      by (simp add: first_outlet_tail)
    then show ?thesis by blast
  qed
qed

lemma first_outlet_exists: "first_outlet vs i \<Longrightarrow> \<exists>v\<in>set vs. is_out_confluence v"
  by (auto simp: first_outlet_def)

lemma find_closest_vertex_same_vertices:
  "vertices c' = vertices c \<Longrightarrow> find_closest_vertex c' nd tol = find_closest_vertex c nd tol"
  by (simp add: find_closest_vertex_def)

lemma start_index_same_vertices:
  "vertices c' = vertices c \<Longrightarrow> start_index c' e = start_index c e"
  by (simp add: start_index_def find_closest_vertex_same_vertices [of c' c] split: sum.splits)

lemma end_index_same_vertices:
  "vertices c' = vertices c \<Longrightarrow> end_index c' e = end_index c e"
  by (simp add: end_index_def find_closest_vertex_same_vertices [of c' c] split: sum.splits)

lemma connection_loop_same_vertices:
  "vertices c' = vertices c \<Longrightarrow> connection_loop c' es k cm = connection_loop c es k cm"
  by (induction es arbitrary: k cm)
    (simp_all add: find_closest_vertex_same_vertices [of c' c] Let_def split: sum.splits)

lemma incidence_loop_same_vertices:
  "vertices c' = vertices c \<Longrightarrow> incidence_loop c' es k (ds, us) = incidence_loop c es k (ds, us)"
  by (induction es arbitrary: k ds us)
    (simp_all add: find_closest_vertex_same_vertices [of c' c] Let_def split: sum.splits)

text \<open>The three outcomes of \<open>connect\<close>.\<close>

lemma connect_empty_vector:
  assumes "\<exists>e\<in>set (edges c). vector e = []"
  shows "connect c = Inl IndexError"
proof (cases "connection_loop c (edges c) 0
    (np_zeros (length (vertices c)) (length (edges c)))")
  case (Inl err)
  then show ?thesis by (simp add: connect_def connection_loop_error [OF Inl])
next
  case (Inr cm)
  with assms connection_loop_Inr_nonempty show ?thesis by blast
qed

lemma connect_no_outlet:
  assumes "\<forall>e\<in>set (edges c). vector e \<noteq> []" and "\<forall>v\<in>set (vertices c). \<not> is_out_confluence v"
  shows "connect c = Inl NoOutletFound"
proof -
  have "has_shape (length (vertices c)) (length (edges c))
      (np_zeros (length (vertices c)) (length (edges c)))"
    by (simp add: np_zeros_def has_shape_np_full)
  from connection_loop_succeeds [OF this _ assms(1), of 0] obtain cm where
    "connection_loop c (edges c) 0 (np_zeros (length (vertices c)) (length (edges c))) = Inr cm"
    by auto
  with out_node_loop_none [OF assms(2), of 0] show ?thesis
    by (simp add: connect_def find_out_node_def)
qed

lemma connect_outlet:
  assumes "\<forall>e\<in>set (edges c). vector e \<noteq> []" and "first_outlet (vertices c) i"
  shows "\<exists>ds us.
     connect c = Inr (c\<lparr>out_node_index := int i, incidenceMatrixDS := ds,
                        incidenceMatrixUS := us\<rparr>, ds, us) \<and>
     has_shape (length (vertices c)) (length (edges c)) ds \<and>
     has_shape (length (vertices c)) (length (edges c)) us \<and>
     (\<forall>v<length (vertices c). \<forall>j<length (edges c).
        ds ! v ! j =
          (if start_index c (edges c ! j) = int v \<and> end_index c (edges c ! j) \<noteq> - 1
           then end_index c (edges c ! j) else endSentinel c)) \<and>
     (\<forall>v<length (vertices c). \<forall>j<length (edges c).
        us ! v ! j =
          (if end_index c (edges c ! j) = int v \<and> start_index c (edges c ! j) \<noteq> - 1
           then start_index c (edges c ! j) else endSentinel c))"
proof -
  let ?V = "length (vertices c)" and ?E = "length (edges c)"
  let ?c1 = "c\<lparr>out_node_index := int i\<rparr>"
  have "has_shape ?V ?E (np_zeros ?V ?E)"
    by (simp add: np_zeros_def has_shape_np_full)
  from connection_loop_succeeds [OF this _ assms(1), of 0] obtain cm where
    cm: "connection_loop c (edges c) 0 (np_zeros ?V ?E) = Inr cm"
    by auto
  from out_node_loop_first [OF first_outlet_exists [OF assms(2)], of 0] obtain i' where
    "first_outlet (vertices c) i'" "out_node_loop (vertices c) 0 = Inr (int i')" by auto
  with assms(2) first_outlet_unique have "out_node_loop (vertices c) 0 = Inr (int i)" by blast
  then have out: "find_out_node c = Inr ?c1" by (simp add: find_out_node_def)
  have sh: "has_shape (length (vertices ?c1)) ?E (np_full ?V ?E (endSentinel ?c1))"
    by (simp add: has_shape_np_full)
  have ne: "\<forall>e\<in>set (edges ?c1). vector e \<noteq> []" using assms(1) by simp
  from incidence_loop_tables [OF sh sh _ ne, of 0] obtain ds us where
    run: "incidence_loop ?c1 (edges ?c1) 0
            (np_full ?V ?E (endSentinel ?c1), np_full ?V ?E (endSentinel ?c1)) = Inr (ds, us)"
    and shape: "has_shape ?V ?E ds" "has_shape ?V ?E us"
    and ds: "\<forall>v<?V. \<forall>j<?E. ds ! v ! j =
          (if start_index ?c1 (edges c ! j) = int v \<and> end_index ?c1 (edges c ! j) \<noteq> - 1
           then end_index ?c1 (edges c ! j) else np_full ?V ?E (endSentinel c) ! v ! j)"
    and us: "\<forall>v<?V. \<forall>j<?E. us ! v ! j =
          (if end_index ?c1 (edges c ! j) = int v \<and> start_index ?c1 (edges c ! j) \<noteq> - 1
           then start_index ?c1 (edges c ! j) else np_full ?V ?E (endSentinel c) ! v ! j)"
    by auto
  have same: "start_index ?c1 e = start_index c e" "end_index ?c1 e = end_index c e" for e
    by (simp_all add: start_index_same_vertices [of ?c1 c] end_index_same_vertices [of ?c1 c])
  from cm out run have "connect c = Inr (c\<lparr>out_node_index := int i, incidenceMatrixDS := ds,
                        incidenceMatrixUS := us\<rparr>, ds, us)"
    by (simp add: connect_def)
  moreover from ds have "\<forall>v<?V. \<forall>j<?E. ds ! v ! j =
          (if start_index c (edges c ! j) = int v \<and> end_index c (edges c ! j) \<noteq> - 1
           then end_index c (edges c ! j) else endSentinel c)"
    by (simp add: same nth_np_full)
  moreover from us have "\<forall>v<?V. \<forall>j<?E. us ! v ! j =
          (if end_index c (edges c ! j) = int v \<and> start_index c (edges c ! j) \<noteq> - 1
           then start_index c (edges c ! j) else endSentinel c)"
    by (simp add: same nth_np_full)
  ultimately show ?thesis using shape by blast
qed

lemma connect_error: "connect c = Inl err \<Longrightarrow> err = IndexError \<or> err = NoOutletFound"
  by (auto simp: connect_def find_out_node_def Let_def split: sum.splits prod.splits
      dest: connection_loop_error incidence_loop_error out_node_loop_error)

lemma connect_Inr:
  assumes "connect c = Inr (c', ds, us)"
  shows "(\<forall>e\<in>set (edges c). vector e \<noteq> []) \<and>
     (\<exists>i. first_outlet (vertices c) i \<and>
        c' = c\<lparr>out_node_index := int i, incidenceMatrixDS := ds, incidenceMatrixUS := us\<rparr>) \<and>
     has_shape (length (vertices c)) (length (edges c)) ds \<and>
     has_shape (length (vertices c)) (length (edges c)) us \<and>
     (\<forall>v<length (vertices c). \<forall>j<length (edges c).
        ds ! v ! j =
          (if start_index c (edges c ! j) = int v \<and> end_index c (edges c ! j) \<noteq> - 1
           then end_index c (edges c ! j) else endSentinel c)) \<and>
     (\<forall>v<length (vertices c). \<forall>j<length (edges c).
        us ! v ! j =
          (if end_index c (edges c ! j) = int v \<and> start_index c (edges c ! j) \<noteq> - 1
           then start_index c (edges c ! j) else endSentinel c))"
proof -
  have ne: "\<forall>e\<in>set (edges c). vector e \<noteq> []"
    using assms connect_empty_vector [of c] by auto
  have "\<exists>v\<in>set (vertices c). is_out_confluence v"
    using assms connect_no_outlet [OF ne] by auto
  from out_node_loop_first [OF this, of 0] obtain i where i: "first_outlet (vertices c) i"
    by blast
  from connect_outlet [OF ne i] assms show ?thesis using ne i by auto
qed

section \<open>The example catchments, connected\<close>

lemma connect_two_outlets:
  "connect two_outlets =
     Inr (two_outlets\<lparr>out_node_index := 0,
              incidenceMatrixDS := [[- 1], [- 1], [0]],
              incidenceMatrixUS := [[2], [- 1], [- 1]]\<rparr>,
          [[- 1], [- 1], [0]],
          [[2], [- 1], [- 1]])"
  by (simp add: two_outlets_def eval_simps)

lemma connect_fork:
  "connect fork =
     Inr (fork\<lparr>out_node_index := 0,
              incidenceMatrixDS := [[- 1, - 1], [- 1, - 1], [0, 1]],
              incidenceMatrixUS := [[2, - 1], [- 1, 2], [- 1, - 1]]\<rparr>,
          [[- 1, - 1], [- 1, - 1], [0, 1]],
          [[2, - 1], [- 1, 2], [- 1, - 1]])"
  by (simp add: fork_def eval_simps)

lemma connect_detached:
  "connect detached =
     Inr (detached\<lparr>out_node_index := 0,
              incidenceMatrixDS := [[- 1], [2], [- 1]],
              incidenceMatrixUS := [[- 1], [- 1], [1]]\<rparr>,
          [[- 1], [2], [- 1]],
          [[- 1], [- 1], [1]])"
  by (simp add: detached_def eval_simps)

lemma connect_offset_edge:
  "connect offset_edge =
     Inr (offset_edge\<lparr>out_node_index := 0,
              incidenceMatrixDS := [[- 1], [- 1]],
              incidenceMatrixUS := [[- 1], [- 1]]\<rparr>,
          [[- 1], [- 1]],
          [[- 1], [- 1]])"
  by (simp add: offset_edge_def eval_simps)

lemma vertices_fork:
  "vertices fork = [Confluence (Confluence_init ''O'' 0 0 True),
     Confluence (Confluence_init ''J'' 2 0 False), Basin (Basin_init ''B'' 1 0 1 0)]"
  by (simp add: fork_def Catchment_init_def or_empty_def)

lemma edges_fork:
  "edges fork = [Reach_init ''r0'' [Node_init [] 1 0, Node_init [] 0 0] NATURAL 0,
     Reach_init ''r1'' [Node_init [] 1 0, Node_init [] 2 0] NATURAL 0]"
  by (simp add: fork_def Catchment_init_def or_empty_def)

section \<open>Outlet errors\<close>

text \<open>
  C1 as stated fails.  With two Confluences flagged as outlet \<open>connect\<close> succeeds: the
  first one becomes the outlet and the tables are returned.  And without any outlet, a
  reach without points makes \<open>connect\<close> fail with \<open>IndexError\<close>, raised by
  \<open>edge.getStart()\<close> before the outlet is looked for.
\<close>

theorem multiple_outlets_counterexample:
  "length (filter is_out_confluence (vertices two_outlets)) = 2 \<and>
   connect two_outlets =
     Inr (two_outlets\<lparr>out_node_index := 0,
              incidenceMatrixDS := [[- 1], [- 1], [0]],
              incidenceMatrixUS := [[2], [- 1], [- 1]]\<rparr>,
          [[- 1], [- 1], [0]],
          [[2], [- 1], [- 1]]) \<and>
   length (filter is_out_confluence (vertices no_outlet_empty_reach)) = 0 \<and>
   connect no_outlet_empty_reach = Inl IndexError"
proof -
  have "length (filter is_out_confluence (vertices two_outlets)) = 2"
    by (simp add: two_outlets_def Catchment_init_def or_empty_def)
  moreover have "length (filter is_out_confluence (vertices no_outlet_empty_reach)) = 0"
    by (simp add: no_outlet_empty_reach_def Catchment_init_def or_empty_def)
  moreover have "connect no_outlet_empty_reach = Inl IndexError"
    by (simp add: no_outlet_empty_reach_def eval_simps getStart_def Reach_init_def)
  ultimately show ?thesis using connect_two_outlets by simp
qed

text \<open>
  C1, amended.  Without a Confluence flagged as outlet \<open>connect\<close> fails and returns no
  tables: with \<open>NoOutletFound\<close> when every reach has a point, with \<open>IndexError\<close> when
  some reach has none.  With one or more Confluences flagged as outlet, and a point in
  every reach, \<open>connect\<close> succeeds and stores the index of the first such Confluence in
  list order.  It never fails with \<open>MultipleOutletsFound\<close>.
\<close>

theorem connect_outlet_outcomes:
  "((\<forall>v\<in>set (vertices c). \<not> is_out_confluence v) \<longrightarrow>
      connect c = (if \<forall>e\<in>set (edges c). vector e \<noteq> [] then Inl NoOutletFound
                   else Inl IndexError)) \<and>
   ((\<exists>v\<in>set (vertices c). is_out_confluence v) \<and> (\<forall>e\<in>set (edges c). vector e \<noteq> []) \<longrightarrow>
      (\<exists>i ds us. first_outlet (vertices c) i \<and>
         connect c = Inr (c\<lparr>out_node_index := int i, incidenceMatrixDS := ds,
                            incidenceMatrixUS := us\<rparr>, ds, us))) \<and>
   connect c \<noteq> Inl MultipleOutletsFound"
proof (intro conjI impI)
  assume "\<forall>v\<in>set (vertices c). \<not> is_out_confluence v"
  then show "connect c = (if \<forall>e\<in>set (edges c). vector e \<noteq> [] then Inl NoOutletFound
                   else Inl IndexError)"
    using connect_no_outlet [of c] connect_empty_vector [of c] by auto
next
  assume a: "(\<exists>v\<in>set (vertices c). is_out_confluence v) \<and> (\<forall>e\<in>set (edges c). vector e \<noteq> [])"
  with out_node_loop_first [of "vertices c" 0] obtain i where i: "first_outlet (vertices c) i"
    by blast
  from a connect_outlet [OF _ i] show "\<exists>i ds us. first_outlet (vertices c) i \<and>
         connect c = Inr (c\<lparr>out_node_index := int i, incidenceMatrixDS := ds,
                            incidenceMatrixUS := us\<rparr>, ds, us)"
    using i by blast
next
  show "connect c \<noteq> Inl MultipleOutletsFound"
    using connect_error [of c MultipleOutletsFound] by auto
qed


theorem connect_outlet_outcomes_witness:
  "connect no_outlet = Inl NoOutletFound \<and>
   connect no_outlet_empty_reach = Inl IndexError \<and>
   (\<exists>ds us. connect two_outlets =
      Inr (two_outlets\<lparr>out_node_index := 0, incidenceMatrixDS := ds,
                         incidenceMatrixUS := us\<rparr>, ds, us))"
proof -
  have v1: "\<forall>v\<in>set (vertices no_outlet). \<not> is_out_confluence v"
    and e1: "\<forall>e\<in>set (edges no_outlet). vector e \<noteq> []"
    by (simp_all add: no_outlet_def Catchment_init_def or_empty_def Reach_init_def)
  have v2: "\<forall>v\<in>set (vertices no_outlet_empty_reach). \<not> is_out_confluence v"
    and e2: "\<not> (\<forall>e\<in>set (edges no_outlet_empty_reach). vector e \<noteq> [])"
    by (simp_all add: no_outlet_empty_reach_def Catchment_init_def or_empty_def Reach_init_def)
  have vs3: "vertices two_outlets = [Confluence (Confluence_init ''O1'' 0 0 True),
      Confluence (Confluence_init ''O2'' 2 0 True), Basin (Basin_init ''B'' 1 0 1 0)]"
    by (simp add: two_outlets_def Catchment_init_def or_empty_def)
  have v3: "\<exists>v\<in>set (vertices two_outlets). is_out_confluence v"
    and e3: "\<forall>e\<in>set (edges two_outlets). vector e \<noteq> []"
    by (simp_all add: two_outlets_def Catchment_init_def or_empty_def Reach_init_def)
  from v1 e1 connect_outlet_outcomes [of no_outlet]
  have r1: "connect no_outlet = Inl NoOutletFound" by simp
  from v2 e2 connect_outlet_outcomes [of no_outlet_empty_reach]
  have r2: "connect no_outlet_empty_reach = Inl IndexError" by simp
  from v3 e3 connect_outlet_outcomes [of two_outlets] obtain i ds us where
    i: "first_outlet (vertices two_outlets) i"
    and r: "connect two_outlets =
      Inr (two_outlets\<lparr>out_node_index := int i, incidenceMatrixDS := ds,
                         incidenceMatrixUS := us\<rparr>, ds, us)"
    by blast
  have "i = 0"
  proof (rule ccontr)
    assume "i \<noteq> 0"
    then have "0 < i" by simp
    with i have "\<not> is_out_confluence (vertices two_outlets ! 0)"
      by (simp add: first_outlet_def)
    then show False by (simp add: vs3)
  qed
  with r have "\<exists>ds us. connect two_outlets =
      Inr (two_outlets\<lparr>out_node_index := 0, incidenceMatrixDS := ds,
                         incidenceMatrixUS := us\<rparr>, ds, us)"
    by auto
  with r1 r2 show ?thesis by blast
qed

section \<open>Rows of the downstream table\<close>

lemma length_filter_pointwise:
  assumes "length xs = length ys" and "\<forall>j<length xs. P (xs ! j) = Q (ys ! j)"
  shows "length (filter P xs) = length (filter Q ys)"
  using assms
proof (induction xs ys rule: list_induct2)
  case Nil
  then show ?case by simp
next
  case (Cons x xs y ys)
  from Cons.prems have "P x = Q y" by (auto dest: spec [of _ 0])
  moreover from Cons.prems have "\<forall>j<length xs. P (xs ! j) = Q (ys ! j)"
    by (auto dest: spec [of _ "Suc j" for j])
  ultimately show ?case using Cons.IH by simp
qed

lemma has_shape_row: "has_shape V E m \<Longrightarrow> v < V \<Longrightarrow> length (m ! v) = E"
  by (simp add: has_shape_def)

text \<open>
  C2 as stated fails: two reaches start at the basin of \<open>fork\<close> (vertex 2), \<open>connect\<close>
  succeeds, and the basin's row of the downstream table holds two entries, 0 and 1.
\<close>

theorem two_downstream_entries_counterexample:
  "connect fork =
     Inr (fork\<lparr>out_node_index := 0,
              incidenceMatrixDS := [[- 1, - 1], [- 1, - 1], [0, 1]],
              incidenceMatrixUS := [[2, - 1], [- 1, 2], [- 1, - 1]]\<rparr>,
          [[- 1, - 1], [- 1, - 1], [0, 1]],
          [[2, - 1], [- 1, 2], [- 1, - 1]]) \<and>
   [[- 1, - 1], [- 1, - 1], [0, 1]] ! 2 = [0, 1 :: int]"
  using connect_fork by simp

text \<open>
  C2, amended.  In the downstream table produced by \<open>connect\<close>, the entry of vertex \<open>v\<close>
  and edge \<open>j\<close> is set exactly when the start of the edge is bound to \<open>v\<close> and its end to
  some vertex.  So the row of a vertex has as many set entries as there are such edges
  starting at it; several reaches starting at one vertex give several entries and no
  error.
\<close>

theorem downstream_row_entries:
  assumes "connect c = Inr (c', ds, us)" and "endSentinel c = - 1"
  shows "\<forall>v<length (vertices c).
     (\<forall>j<length (edges c).
        (ds ! v ! j \<noteq> - 1) =
        (start_index c (edges c ! j) = int v \<and> end_index c (edges c ! j) \<noteq> - 1)) \<and>
     length (filter (\<lambda>w. w \<noteq> - 1) (ds ! v)) =
     length (filter (\<lambda>e. start_index c e = int v \<and> end_index c e \<noteq> - 1) (edges c))"
proof (intro allI impI)
  fix v
  assume v: "v < length (vertices c)"
  from connect_Inr [OF assms(1)] have sh: "has_shape (length (vertices c)) (length (edges c)) ds"
    and ds: "\<forall>v<length (vertices c). \<forall>j<length (edges c).
        ds ! v ! j =
          (if start_index c (edges c ! j) = int v \<and> end_index c (edges c ! j) \<noteq> - 1
           then end_index c (edges c ! j) else endSentinel c)"
    by blast+
  have entry: "(ds ! v ! j \<noteq> - 1) =
        (start_index c (edges c ! j) = int v \<and> end_index c (edges c ! j) \<noteq> - 1)"
    if "j < length (edges c)" for j
    using ds v that assms(2) by simp
  have len: "length (ds ! v) = length (edges c)"
    using sh v by (rule has_shape_row)
  have "length (filter (\<lambda>w. w \<noteq> - 1) (ds ! v)) =
     length (filter (\<lambda>e. start_index c e = int v \<and> end_index c e \<noteq> - 1) (edges c))"
    using len entry by (intro length_filter_pointwise) simp_all
  with entry show "(\<forall>j<length (edges c).
        (ds ! v ! j \<noteq> - 1) =
        (start_index c (edges c ! j) = int v \<and> end_index c (edges c ! j) \<noteq> - 1)) \<and>
     length (filter (\<lambda>w. w \<noteq> - 1) (ds ! v)) =
     length (filter (\<lambda>e. start_index c e = int v \<and> end_index c e \<noteq> - 1) (edges c))"
    by blast
qed

theorem downstream_row_entries_witness:
  "endSentinel fork = - 1 \<and>
   length (filter (\<lambda>e. start_index fork e = 2 \<and> end_index fork e \<noteq> - 1) (edges fork)) = 2"
proof -
  have s: "endSentinel fork = - 1" by (simp add: fork_def Catchment_init_def or_empty_def)
  have lt: "(2::nat) < length (vertices fork)" by (simp add: vertices_fork)
  note row = downstream_row_entries [OF connect_fork s, THEN spec, of 2, THEN mp, OF lt,
      THEN conjunct2]
  from row s show ?thesis by simp
qed

section \<open>How the tables are filled\<close>

lemma vertices_detached:
  "vertices detached = [Confluence (Confluence_init ''O'' 0 0 True),
     Basin (Basin_init ''A'' 10 0 1 0), Basin (Basin_init ''B'' 20 0 1 0)]"
  by (simp add: detached_def Catchment_init_def or_empty_def)

lemma edges_detached:
  "edges detached = [Reach_init ''r'' [Node_init [] 10 0, Node_init [] 20 0] NATURAL 0]"
  by (simp add: detached_def Catchment_init_def or_empty_def)

text \<open>
  C3 as stated fails.  In \<open>detached\<close> the only reach joins two basins and no reach leads
  to the outlet.  \<open>connect\<close> still records the reach in both tables.  The breadth-first
  routine \<open>_build_incidence_matrices\<close>, run from the outlet on the connection matrix of
  the same catchment, leaves every entry at the sentinel; \<open>connect\<close> does not call it.
\<close>

theorem not_breadth_first_counterexample:
  "connect detached =
     Inr (detached\<lparr>out_node_index := 0,
              incidenceMatrixDS := [[- 1], [2], [- 1]],
              incidenceMatrixUS := [[- 1], [- 1], [1]]\<rparr>,
          [[- 1], [2], [- 1]],
          [[- 1], [- 1], [1]]) \<and>
   initialize_connection_matrix detached 3 1 = Inr [[0], [1], [2]] \<and>
   build_incidence_matrices
     (detached\<lparr>out_node_index := 0,
              incidenceMatrixDS := [[- 1], [2], [- 1]],
              incidenceMatrixUS := [[- 1], [- 1], [1]]\<rparr>)
     [[0], [1], [2]] (np_full 3 1 (- 1)) (np_full 3 1 (- 1)) 3 1 =
   Inr ([[- 1], [- 1], [- 1]], [[- 1], [- 1], [- 1]])"
proof -
  have "initialize_connection_matrix detached 3 1 = Inr [[0], [1], [2]]"
    by (simp add: detached_def initialize_connection_matrix_def eval_simps)
  moreover have "build_incidence_matrices
     (detached\<lparr>out_node_index := 0,
              incidenceMatrixDS := [[- 1], [2], [- 1]],
              incidenceMatrixUS := [[- 1], [- 1], [1]]\<rparr>)
     [[0], [1], [2]] (np_full 3 1 (- 1)) (np_full 3 1 (- 1)) 3 1 =
   Inr ([[- 1], [- 1], [- 1]], [[- 1], [- 1], [- 1]])"
    by (simp add: detached_def build_incidence_matrices_def edge_range_def eval_simps)
  ultimately show ?thesis using connect_detached by simp
qed

text \<open>
  C3, amended.  The two tables returned by \<open>connect\<close> are filled edge by edge, without a
  traversal: for an edge whose start is bound to a vertex \<open>s\<close> and whose end is bound to
  a vertex \<open>t\<close>, the downstream table holds \<open>t\<close> at \<open>(s, edge)\<close> and the upstream table
  holds \<open>s\<close> at \<open>(t, edge)\<close>, whether or not the edge is joined to the outlet.  Every other
  entry is the sentinel.
\<close>

theorem tables_filled_edgewise:
  assumes "connect c = Inr (c', ds, us)"
  shows "\<forall>v<length (vertices c). \<forall>j<length (edges c).
     ds ! v ! j =
       (if start_index c (edges c ! j) = int v \<and> end_index c (edges c ! j) \<noteq> - 1
        then end_index c (edges c ! j) else endSentinel c) \<and>
     us ! v ! j =
       (if end_index c (edges c ! j) = int v \<and> start_index c (edges c ! j) \<noteq> - 1
        then start_index c (edges c ! j) else endSentinel c)"
  using connect_Inr [OF assms] by simp

theorem tables_filled_edgewise_witness:
  "start_index detached (edges detached ! 0) = 1 \<and>
   end_index detached (edges detached ! 0) = 2"
proof -
  have v: "(1::nat) < length (vertices detached)" and j: "(0::nat) < length (edges detached)"
    by (simp_all add: vertices_detached edges_detached)
  note entry = tables_filled_edgewise [OF connect_detached, THEN spec, of 1, THEN mp, OF v,
      THEN spec, of 0, THEN mp, OF j, THEN conjunct1]
  from entry have "[[- 1], [2], [- 1]] ! 1 ! 0 =
       (if start_index detached (edges detached ! 0) = 1 \<and>
           end_index detached (edges detached ! 0) \<noteq> - 1
        then end_index detached (edges detached ! 0) else endSentinel detached)"
    by simp
  moreover have "endSentinel detached = - 1" by (simp add: detached_def Catchment_init_def or_empty_def)
  ultimately show ?thesis by (simp split: if_splits)
qed

section \<open>Tolerances\<close>

lemma find_closest_vertex_index:
  "find_closest_vertex c nd tol = int v \<longleftrightarrow>
     first_closest (vertices c) (coordinates nd) v \<and>
     distance_to (vertices c ! v) (coordinates nd) \<le> tol"
proof
  assume r: "find_closest_vertex c nd tol = int v"
  with find_closest_vertex_cases [of c nd tol] obtain i where
    "first_closest (vertices c) (coordinates nd) i"
    "distance_to (vertices c ! i) (coordinates nd) \<le> tol"
    "find_closest_vertex c nd tol = int i"
    by auto
  with r show "first_closest (vertices c) (coordinates nd) v \<and>
     distance_to (vertices c ! v) (coordinates nd) \<le> tol"
    by simp
next
  assume a: "first_closest (vertices c) (coordinates nd) v \<and>
     distance_to (vertices c ! v) (coordinates nd) \<le> tol"
  then have "\<not> (\<forall>j<length (vertices c). tol < distance_to (vertices c ! j) (coordinates nd))"
    by (fastforce simp: first_closest_def)
  with find_closest_vertex_cases [of c nd tol] obtain i where
    "first_closest (vertices c) (coordinates nd) i" "find_closest_vertex c nd tol = int i"
    by blast
  with a first_closest_unique show "find_closest_vertex c nd tol = int v" by blast
qed

lemma find_closest_vertex_found:
  "find_closest_vertex c nd tol \<noteq> - 1 \<longleftrightarrow>
     (\<exists>w\<in>set (vertices c). distance_to w (coordinates nd) \<le> tol)"
proof -
  have "(\<exists>w\<in>set (vertices c). distance_to w (coordinates nd) \<le> tol) \<longleftrightarrow>
      \<not> (\<forall>j<length (vertices c). tol < distance_to (vertices c ! j) (coordinates nd))"
    by (metis in_set_conv_nth not_less)
  moreover have "find_closest_vertex c nd tol = - 1 \<longleftrightarrow>
      (\<forall>j<length (vertices c). tol < distance_to (vertices c ! j) (coordinates nd))"
    using find_closest_vertex_cases [of c nd tol] by (fastforce simp: first_closest_def)
  ultimately show ?thesis by simp
qed

lemma find_vertex_by_coordinates_found:
  "find_vertex_by_coordinates c p tol \<noteq> - 1 \<longleftrightarrow>
     (\<exists>w\<in>set (vertices c). distance_to w p \<le> tol)"
proof -
  have "(\<exists>w\<in>set (vertices c). distance_to w p \<le> tol) \<longleftrightarrow>
      \<not> (\<forall>j<length (vertices c). tol < distance_to (vertices c ! j) p)"
    by (metis in_set_conv_nth not_less)
  moreover have "find_vertex_by_coordinates c p tol = - 1 \<longleftrightarrow>
      (\<forall>j<length (vertices c). tol < distance_to (vertices c ! j) p)"
    using find_vertex_by_coordinates_cases [of c p tol] by (fastforce simp: first_within_def)
  ultimately show ?thesis by simp
qed

lemma vertices_offset_edge:
  "vertices offset_edge =
     [Confluence (Confluence_init ''O'' 0 0 True), Basin (Basin_init ''A'' 1 0 1 0)]"
  by (simp add: offset_edge_def Catchment_init_def or_empty_def)

text \<open>
  C6 as stated fails.  The first point of the reach of \<open>offset_edge\<close> is 0.05 away from
  the basin: within 0.1, but \<open>connect\<close> does not bind it and leaves both tables at the
  sentinel.  The lookup by coordinates with its default tolerance finds the basin
  (index 1) from the same point, which a tolerance of 1e-6 would not.
\<close>

theorem tolerances_counterexample:
  "connect offset_edge =
     Inr (offset_edge\<lparr>out_node_index := 0,
              incidenceMatrixDS := [[- 1], [- 1]],
              incidenceMatrixUS := [[- 1], [- 1]]\<rparr>,
          [[- 1], [- 1]],
          [[- 1], [- 1]]) \<and>
   find_vertex_by_coordinates offset_edge (coordinates (Node_init [] (21 / 20) 0))
     by_coordinates_tol = 1"
proof -
  have "find_vertex_by_coordinates offset_edge (coordinates (Node_init [] (21 / 20) 0))
     by_coordinates_tol = 1"
    by (simp add: vertices_offset_edge find_vertex_by_coordinates_def by_coordinates_tol_def)
  with connect_offset_edge show ?thesis by simp
qed

text \<open>What the breadth-first routine writes: an entry of the incidence matrix that a
  run changes is in the column of an edge, and it is the first vertex in list order
  within 0.1 of the end point of that edge the run re-matches.\<close>

lemma mat_set_changes:
  assumes "mat_set m i j val = Inr m'" and "0 \<le> j" and "m' ! v ! k \<noteq> m ! v ! k"
  shows "k = nat j \<and> m' ! v ! k = val"
proof -
  from assms(1) obtain r k0 where r: "py_index (length m) i = Inr r"
    and k0: "py_index (length (m ! r)) j = Inr k0"
    and m': "m' = m[r := (m ! r)[k0 := val]]"
    by (auto simp: mat_set_def split: sum.splits)
  from r have rl: "r < length m" by (rule py_index_less)
  from k0 have kl: "k0 < length (m ! r)" by (rule py_index_less)
  from k0 assms(2) have kj: "k0 = nat j" by (auto simp: py_index_def split: if_splits)
  from assms(3) have vr: "v = r" unfolding m' by (cases "v = r") simp_all
  with assms(3) rl have kk: "k = k0" unfolding m' by (cases "k = k0") simp_all
  from vr kk rl kl have "m' ! v ! k = val" unfolding m' by simp
  with kk kj show ?thesis by simp
qed

lemma list_get_nonneg:
  "list_get xs i = Inr x \<Longrightarrow> 0 \<le> i \<Longrightarrow> nat i < length xs \<and> x = xs ! nat i"
  by (auto simp: list_get_def py_index_def split: sum.splits if_splits)

lemma find_vertex_by_coordinates_first_within:
  "find_vertex_by_coordinates c p tol \<noteq> - 1 \<Longrightarrow>
   \<exists>i. first_within (vertices c) p tol i \<and> find_vertex_by_coordinates c p tol = int i"
  using find_vertex_by_coordinates_cases [of c p tol] by auto

text \<open>One pass of the loop body on one edge, in terms of the lookup by coordinates.\<close>

lemma propagate_edges_Cons:
  assumes "mat_get cm cur e = Inr tag" and "mat_get colour cur e = Inr 0"
    and "list_get (edges c) e = Inr edge" and "endpoint edge = Inr nd"
  shows "propagate_edges c tag endpoint cm cur (e # es) (q, colour, im) =
     (case mat_set colour cur e 1 of
        Inl err \<Rightarrow> Inl err
      | Inr colour' \<Rightarrow>
          if find_vertex_by_coordinates c (coordinates nd) (1 / 10) = - 1
          then propagate_edges c tag endpoint cm cur es (q, colour', im)
          else (case mat_set im cur e (find_vertex_by_coordinates c (coordinates nd) (1 / 10)) of
                  Inl err \<Rightarrow> Inl err
                | Inr im' \<Rightarrow>
                    propagate_edges c tag endpoint cm cur es
                      (q @ [(find_vertex_by_coordinates c (coordinates nd) (1 / 10), e)],
                       colour', im')))"
  using assms by (simp add: Let_def by_coordinates_tol_def split: sum.splits)

lemma propagate_edges_changes:
  assumes "\<forall>e\<in>set es. 0 \<le> e"
    and "propagate_edges c tag endpoint cm cur es (q, colour, im) = Inr (q', colour', im')"
    and "im' ! v ! k \<noteq> im ! v ! k"
  shows "\<exists>nd i. k < length (edges c) \<and> endpoint (edges c ! k) = Inr nd \<and>
     first_within (vertices c) (coordinates nd) (1 / 10) i \<and> im' ! v ! k = int i"
  using assms
proof (induction es arbitrary: q colour im)
  case Nil
  then show ?case by simp
next
  case (Cons e es)
  let ?goal = "\<exists>nd i. k < length (edges c) \<and> endpoint (edges c ! k) = Inr nd \<and>
     first_within (vertices c) (coordinates nd) (1 / 10) i \<and> im' ! v ! k = int i"
  from Cons.prems(1) have e0: "0 \<le> e" and rest: "\<forall>e\<in>set es. 0 \<le> e" by simp_all
  have skip: ?goal
    if "propagate_edges c tag endpoint cm cur es (q1, col1, im) = Inr (q', colour', im')"
    for q1 col1
    using rest that Cons.prems(3) by (rule Cons.IH)
  from Cons.prems(2) obtain ct where ct: "mat_get cm cur e = Inr ct"
    by (auto split: sum.splits)
  show ?case
  proof (cases "ct = tag")
    case False
    with ct Cons.prems(2)
    have "propagate_edges c tag endpoint cm cur es (q, colour, im) = Inr (q', colour', im')"
      by simp
    then show ?thesis by (rule skip)
  next
    case True
    with ct Cons.prems(2) obtain vis where vis: "mat_get colour cur e = Inr vis"
      by (auto split: sum.splits)
    show ?thesis
    proof (cases "vis = 0")
      case False
      with ct True vis Cons.prems(2)
      have "propagate_edges c tag endpoint cm cur es (q, colour, im) = Inr (q', colour', im')"
        by simp
      then show ?thesis by (rule skip)
    next
      case vis0: True
      with ct True vis Cons.prems(2) obtain col1 edge nd where
        col1: "mat_set colour cur e 1 = Inr col1"
        and edge: "list_get (edges c) e = Inr edge" and nd: "endpoint edge = Inr nd"
        by (auto split: sum.splits)
      let ?x = "find_vertex_by_coordinates c (coordinates nd) (1 / 10)"
      have step: "propagate_edges c tag endpoint cm cur (e # es) (q, colour, im) =
         (case mat_set colour cur e 1 of
            Inl err \<Rightarrow> Inl err
          | Inr colour' \<Rightarrow>
              if ?x = - 1
              then propagate_edges c tag endpoint cm cur es (q, colour', im)
              else (case mat_set im cur e ?x of
                      Inl err \<Rightarrow> Inl err
                    | Inr im' \<Rightarrow>
                        propagate_edges c tag endpoint cm cur es
                          (q @ [(?x, e)], colour', im')))"
        using ct True vis vis0 edge nd by (intro propagate_edges_Cons) simp_all
      show ?thesis
      proof (cases "?x = - 1")
        case True
        with step col1 Cons.prems(2)
        have "propagate_edges c tag endpoint cm cur es (q, col1, im) = Inr (q', colour', im')"
          by simp
        then show ?thesis by (rule skip)
      next
        case False
        with step col1 Cons.prems(2) obtain im1 where
          im1: "mat_set im cur e ?x = Inr im1"
          and run: "propagate_edges c tag endpoint cm cur es (q @ [(?x, e)], col1, im1) =
            Inr (q', colour', im')"
          by (auto split: sum.splits)
        show ?thesis
        proof (cases "im' ! v ! k = im1 ! v ! k")
          case False
          with rest run show ?thesis by (intro Cons.IH)
        next
          case same: True
          with Cons.prems(3) have "im1 ! v ! k \<noteq> im ! v ! k" by simp
          with mat_set_changes [OF im1 e0] have k: "k = nat e" and val: "im1 ! v ! k = ?x"
            by simp_all
          from list_get_nonneg [OF edge e0] k have "k < length (edges c)" "edge = edges c ! k"
            by simp_all
          moreover from find_vertex_by_coordinates_first_within [OF False] obtain i where
            "first_within (vertices c) (coordinates nd) (1 / 10) i" "?x = int i" by blast
          ultimately show ?thesis using nd same val by auto
        qed
      qed
    qed
  qed
qed

lemma edge_range_nonneg: "\<forall>e\<in>set (edge_range n). 0 \<le> e"
  by (simp add: edge_range_def)

lemma bfs_changes:
  assumes "bfs c tag endpoint cm ne st = Inr im'" and "im' ! v ! k \<noteq> snd (snd st) ! v ! k"
  shows "\<exists>nd i. k < length (edges c) \<and> endpoint (edges c ! k) = Inr nd \<and>
     first_within (vertices c) (coordinates nd) (1 / 10) i \<and> im' ! v ! k = int i"
  using assms
proof (induction c tag endpoint cm ne st rule: bfs.induct)
  case (1 c tag endpoint cm ne colour im)
  then show ?case by simp
next
  case (2 c tag endpoint cm ne cur inc queue colour im)
  from "2.prems"(1) obtain q1 col1 im1 where
    pass: "propagate_edges c tag endpoint cm cur (edge_range ne) (queue, colour, im) =
      Inr (q1, col1, im1)"
    and run: "bfs c tag endpoint cm ne (q1, col1, im1) = Inr im'"
    by (auto split: sum.splits)
  show ?case
  proof (cases "im' ! v ! k = im1 ! v ! k")
    case False
    with "2.IH" [OF pass run] show ?thesis by simp
  next
    case True
    with "2.prems"(2) have "im1 ! v ! k \<noteq> im ! v ! k" by simp
    with propagate_edges_changes [OF edge_range_nonneg pass] True show ?thesis by simp
  qed
qed

lemma build_incidence_matrices_changes:
  assumes "build_incidence_matrices c cm ds us V E = Inr (ds', us')"
  shows "us' ! v ! k \<noteq> us ! v ! k \<Longrightarrow>
      \<exists>nd i. k < length (edges c) \<and> getEnd (edges c ! k) = Inr nd \<and>
        first_within (vertices c) (coordinates nd) (1 / 10) i \<and> us' ! v ! k = int i"
    and "ds' ! v ! k \<noteq> ds ! v ! k \<Longrightarrow>
      \<exists>nd i. k < length (edges c) \<and> getStart (edges c ! k) = Inr nd \<and>
        first_within (vertices c) (coordinates nd) (1 / 10) i \<and> ds' ! v ! k = int i"
proof -
  from assms have u: "bfs c 1 getEnd cm E ([(out_node_index c, - 1)], np_zeros V E, us) = Inr us'"
    and d: "bfs c 2 getStart cm E ([(out_node_index c, - 1)], np_zeros V E, ds) = Inr ds'"
    by (auto simp: build_incidence_matrices_def split: sum.splits)
  show "\<exists>nd i. k < length (edges c) \<and> getEnd (edges c ! k) = Inr nd \<and>
        first_within (vertices c) (coordinates nd) (1 / 10) i \<and> us' ! v ! k = int i"
    if "us' ! v ! k \<noteq> us ! v ! k"
    using bfs_changes [OF u] that by simp
  show "\<exists>nd i. k < length (edges c) \<and> getStart (edges c ! k) = Inr nd \<and>
        first_within (vertices c) (coordinates nd) (1 / 10) i \<and> ds' ! v ! k = int i"
    if "ds' ! v ! k \<noteq> ds ! v ! k"
    using bfs_changes [OF d] that by simp
qed


lemma vertices_crowded:
  "vertices crowded = [Confluence (Confluence_init ''J'' (21 / 20) 0 False),
     Confluence (Confluence_init ''O'' 0 0 True), Basin (Basin_init ''B'' 1 0 1 0)]"
  by (simp add: crowded_def Catchment_init_def or_empty_def)

lemma edges_crowded:
  "edges crowded = [Reach_init ''r'' [Node_init [] 1 0, Node_init [] 0 0] NATURAL 0]"
  by (simp add: crowded_def Catchment_init_def or_empty_def)

lemma crowded_connection_matrix:
  "initialize_connection_matrix crowded 3 1 = Inr [[0], [2], [1]]"
  by (simp add: crowded_def initialize_connection_matrix_def eval_simps)

lemma crowded_pass:
  "propagate_edges (crowded\<lparr>out_node_index := 1\<rparr>) 2 getStart [[0], [2], [1]] 1 [0]
     ([], np_zeros 3 1, np_full 3 1 (- 1)) =
   Inr ([(0, 0)], [[0], [1], [0]], [[- 1], [0], [- 1]])"
  by (simp add: crowded_def eval_simps find_vertex_by_coordinates_def by_coordinates_tol_def)

lemma crowded_bfs:
  "build_incidence_matrices (crowded\<lparr>out_node_index := 1\<rparr>) [[0], [2], [1]]
     (np_full 3 1 (- 1)) (np_full 3 1 (- 1)) 3 1 =
   Inr ([[- 1], [0], [- 1]], [[- 1], [- 1], [- 1]])"
  by (simp add: crowded_def build_incidence_matrices_def edge_range_def eval_simps
      find_vertex_by_coordinates_def by_coordinates_tol_def)

text \<open>
  C6, amended.  The binding of the end points of an edge in \<open>connect\<close> uses the tight
  tolerance 1e-6, the default of \<open>_find_closest_vertex\<close>: the downstream entry of vertex
  \<open>v\<close> and edge \<open>j\<close> is set exactly when \<open>v\<close> is the first closest vertex to the start of
  the edge, at a distance of at most 1e-6, and some vertex is within 1e-6 of its end.  The
  lookup by coordinates with the default of \<open>_find_vertex_by_coordinates\<close> finds a vertex
  exactly when one is within 0.1 of the point, and this is the lookup of the breadth-first
  routine: one pass of its loop over an edge tagged at the current vertex and not yet
  visited enqueues a vertex exactly when one is within 0.1 of the edge's other end point,
  and every entry that \<open>_build_incidence_matrices\<close> writes into either table is the first
  vertex in list order within 0.1 of the end point it re-matches (the end of the edge in
  the upstream run, its start in the downstream run).
\<close>

theorem binding_tolerances:
  "(\<forall>c' ds us j v s t.
      connect c = Inr (c', ds, us) \<and> endSentinel c = - 1 \<and>
      j < length (edges c) \<and> v < length (vertices c) \<and>
      getStart (edges c ! j) = Inr s \<and> getEnd (edges c ! j) = Inr t \<longrightarrow>
      (ds ! v ! j \<noteq> - 1) =
      (first_closest (vertices c) (coordinates s) v \<and>
       distance_to (vertices c ! v) (coordinates s) \<le> 1 / 1000000 \<and>
       (\<exists>w\<in>set (vertices c). distance_to w (coordinates t) \<le> 1 / 1000000))) \<and>
   (find_vertex_by_coordinates c p by_coordinates_tol \<noteq> - 1) =
   (\<exists>w\<in>set (vertices c). distance_to w p \<le> 1 / 10) \<and>
   (\<forall>tag endpoint cm cur e q colour im edge nd st.
      mat_get cm cur e = Inr tag \<and> mat_get colour cur e = Inr 0 \<and>
      list_get (edges c) e = Inr edge \<and> endpoint edge = Inr nd \<and>
      propagate_edges c tag endpoint cm cur [e] (q, colour, im) = Inr st \<longrightarrow>
      fst st =
        (if \<exists>w\<in>set (vertices c). distance_to w (coordinates nd) \<le> 1 / 10
         then q @ [(find_vertex_by_coordinates c (coordinates nd) (1 / 10), e)] else q)) \<and>
   (\<forall>cm ds us V E ds' us' v k.
      build_incidence_matrices c cm ds us V E = Inr (ds', us') \<longrightarrow>
      (us' ! v ! k \<noteq> us ! v ! k \<longrightarrow>
         (\<exists>nd i. k < length (edges c) \<and> getEnd (edges c ! k) = Inr nd \<and>
            first_within (vertices c) (coordinates nd) (1 / 10) i \<and> us' ! v ! k = int i)) \<and>
      (ds' ! v ! k \<noteq> ds ! v ! k \<longrightarrow>
         (\<exists>nd i. k < length (edges c) \<and> getStart (edges c ! k) = Inr nd \<and>
            first_within (vertices c) (coordinates nd) (1 / 10) i \<and> ds' ! v ! k = int i)))"
proof (intro conjI allI impI)
  fix c' ds us j v s t
  assume a: "connect c = Inr (c', ds, us) \<and> endSentinel c = - 1 \<and>
      j < length (edges c) \<and> v < length (vertices c) \<and>
      getStart (edges c ! j) = Inr s \<and> getEnd (edges c ! j) = Inr t"
  then have "ds ! v ! j =
       (if start_index c (edges c ! j) = int v \<and> end_index c (edges c ! j) \<noteq> - 1
        then end_index c (edges c ! j) else endSentinel c)"
    using connect_Inr [of c c' ds us] by simp
  with a have "(ds ! v ! j \<noteq> - 1) =
      (find_closest_vertex c s closest_vertex_tol = int v \<and>
       find_closest_vertex c t closest_vertex_tol \<noteq> - 1)"
    by (simp add: start_index_def end_index_def)
  then show "(ds ! v ! j \<noteq> - 1) =
      (first_closest (vertices c) (coordinates s) v \<and>
       distance_to (vertices c ! v) (coordinates s) \<le> 1 / 1000000 \<and>
       (\<exists>w\<in>set (vertices c). distance_to w (coordinates t) \<le> 1 / 1000000))"
    by (simp add: find_closest_vertex_index find_closest_vertex_found closest_vertex_tol_def)
next
  show "(find_vertex_by_coordinates c p by_coordinates_tol \<noteq> - 1) =
   (\<exists>w\<in>set (vertices c). distance_to w p \<le> 1 / 10)"
    by (simp add: find_vertex_by_coordinates_found by_coordinates_tol_def)
next
  fix tag endpoint cm cur e q colour im edge nd st
  assume a: "mat_get cm cur e = Inr tag \<and> mat_get colour cur e = Inr 0 \<and>
      list_get (edges c) e = Inr edge \<and> endpoint edge = Inr nd \<and>
      propagate_edges c tag endpoint cm cur [e] (q, colour, im) = Inr st"
  then have g: "mat_get cm cur e = Inr tag" "mat_get colour cur e = Inr 0"
      "list_get (edges c) e = Inr edge" "endpoint edge = Inr nd"
    and run: "propagate_edges c tag endpoint cm cur [e] (q, colour, im) = Inr st"
    by blast+
  let ?x = "find_vertex_by_coordinates c (coordinates nd) (1 / 10)"
  have step: "propagate_edges c tag endpoint cm cur [e] (q, colour, im) =
     (case mat_set colour cur e 1 of
        Inl err \<Rightarrow> Inl err
      | Inr colour' \<Rightarrow>
          if ?x = - 1
          then propagate_edges c tag endpoint cm cur [] (q, colour', im)
          else (case mat_set im cur e ?x of
                  Inl err \<Rightarrow> Inl err
                | Inr im' \<Rightarrow>
                    propagate_edges c tag endpoint cm cur []
                      (q @ [(?x, e)], colour', im')))"
    by (rule propagate_edges_Cons) (rule g)+
  from run have "fst st = (if ?x = - 1 then q else q @ [(?x, e)])"
    unfolding step by (auto split: sum.splits if_splits)
  moreover have "(?x \<noteq> - 1) = (\<exists>w\<in>set (vertices c). distance_to w (coordinates nd) \<le> 1 / 10)"
    by (rule find_vertex_by_coordinates_found)
  ultimately show "fst st =
        (if \<exists>w\<in>set (vertices c). distance_to w (coordinates nd) \<le> 1 / 10
         then q @ [(?x, e)] else q)"
    by auto
next
  fix cm ds us V E ds' us' v k
  assume a: "build_incidence_matrices c cm ds us V E = Inr (ds', us')"
  assume "us' ! v ! k \<noteq> us ! v ! k"
  with build_incidence_matrices_changes(1) [OF a]
  show "\<exists>nd i. k < length (edges c) \<and> getEnd (edges c ! k) = Inr nd \<and>
            first_within (vertices c) (coordinates nd) (1 / 10) i \<and> us' ! v ! k = int i"
    by simp
next
  fix cm ds us V E ds' us' v k
  assume a: "build_incidence_matrices c cm ds us V E = Inr (ds', us')"
  assume "ds' ! v ! k \<noteq> ds ! v ! k"
  with build_incidence_matrices_changes(2) [OF a]
  show "\<exists>nd i. k < length (edges c) \<and> getStart (edges c ! k) = Inr nd \<and>
            first_within (vertices c) (coordinates nd) (1 / 10) i \<and> ds' ! v ! k = int i"
    by simp
qed


theorem binding_tolerances_witness:
  "endSentinel fork = - 1 \<and>
   getStart (edges fork ! 0) = Inr (Node_init [] 1 0) \<and>
   getEnd (edges fork ! 0) = Inr (Node_init [] 0 0) \<and>
   distance_to (vertices fork ! 2) (coordinates (Node_init [] 1 0)) \<le> 1 / 1000000 \<and>
   find_vertex_by_coordinates offset_edge (21 / 20, 0) by_coordinates_tol \<noteq> - 1 \<and>
   find_vertex_by_coordinates (crowded\<lparr>out_node_index := 1\<rparr>)
     (coordinates (Node_init [] 1 0)) (1 / 10) = 0 \<and>
   distance_to (vertices crowded ! 0) (coordinates (Node_init [] 1 0)) \<le> 1 / 10"
proof -
  have s: "endSentinel fork = - 1" by (simp add: fork_def Catchment_init_def or_empty_def)
  have j: "(0::nat) < length (edges fork)" and v: "(2::nat) < length (vertices fork)"
    by (simp_all add: edges_fork vertices_fork)
  have st: "getStart (edges fork ! 0) = Inr (Node_init [] 1 0)"
    "getEnd (edges fork ! 0) = Inr (Node_init [] 0 0)"
    by (simp_all add: edges_fork)
  note part1 = binding_tolerances [of fork, THEN conjunct1, rule_format,
      of _ "[[- 1, - 1], [- 1, - 1], [0, 1]]" _ 0 2 "Node_init [] 1 0" "Node_init [] 0 0"]
  from part1 connect_fork s j v st
  have "([[- 1, - 1], [- 1, - 1], [0, 1]] ! 2 ! 0 \<noteq> (- 1 :: int)) =
      (first_closest (vertices fork) (coordinates (Node_init [] 1 0)) 2 \<and>
       distance_to (vertices fork ! 2) (coordinates (Node_init [] 1 0)) \<le> 1 / 1000000 \<and>
       (\<exists>w\<in>set (vertices fork). distance_to w (coordinates (Node_init [] 0 0)) \<le> 1 / 1000000))"
    by blast
  then have near: "distance_to (vertices fork ! 2) (coordinates (Node_init [] 1 0)) \<le> 1 / 1000000"
    by simp
  have "Basin (Basin_init ''A'' 1 0 1 0) \<in> set (vertices offset_edge) \<and>
    distance_to (Basin (Basin_init ''A'' 1 0 1 0)) (21 / 20, 0) \<le> 1 / 10"
    by (simp add: vertices_offset_edge)
  then have "\<exists>w\<in>set (vertices offset_edge). distance_to w (21 / 20, 0) \<le> 1 / 10"
    by blast
  with binding_tolerances [of offset_edge "(21 / 20, 0)", THEN conjunct2, THEN conjunct1]
  have loose: "find_vertex_by_coordinates offset_edge (21 / 20, 0) by_coordinates_tol \<noteq> - 1"
    by simp
  let ?c = "crowded\<lparr>out_node_index := 1\<rparr>"
  have vs: "vertices ?c = vertices crowded" and es: "edges ?c = edges crowded" by simp_all
  have g: "mat_get [[0], [2], [1]] 1 0 = Inr 2 \<and> mat_get (np_zeros 3 1) 1 0 = Inr 0 \<and>
      list_get (edges ?c) 0 = Inr (Reach_init ''r'' [Node_init [] 1 0, Node_init [] 0 0] NATURAL 0) \<and>
      getStart (Reach_init ''r'' [Node_init [] 1 0, Node_init [] 0 0] NATURAL 0) =
        Inr (Node_init [] 1 0) \<and>
      propagate_edges ?c 2 getStart [[0], [2], [1]] 1 [0]
        ([], np_zeros 3 1, np_full 3 1 (- 1)) =
      Inr ([(0, 0)], [[0], [1], [0]], [[- 1], [0], [- 1]])"
    using crowded_pass by (simp add: es edges_crowded eval_simps)
  have ex: "\<exists>w\<in>set (vertices ?c). distance_to w (coordinates (Node_init [] 1 0)) \<le> 1 / 10"
    by (simp add: vertices_crowded)
  note part3 = binding_tolerances [of ?c, THEN conjunct2, THEN conjunct2, THEN conjunct1,
      rule_format, OF g]
  from part3 ex
  have pass: "find_vertex_by_coordinates ?c (coordinates (Node_init [] 1 0)) (1 / 10) = 0"
    by simp
  have changed: "[[- 1], [0], [- 1]] ! 1 ! 0 \<noteq> np_full 3 1 (- 1) ! 1 ! (0::nat)"
    by (simp add: np_full_def eval_nat_numeral)
  note part4 = binding_tolerances [of ?c, THEN conjunct2, THEN conjunct2, THEN conjunct2,
      rule_format, OF crowded_bfs, THEN conjunct2, rule_format, OF changed]
  then obtain nd i where nd: "getStart (edges ?c ! 0) = Inr nd"
    and fw: "first_within (vertices ?c) (coordinates nd) (1 / 10) i"
    and i: "[[- 1], [0], [- 1]] ! 1 ! 0 = int i"
    by blast
  from nd have "nd = Node_init [] 1 0" by (simp add: edges_crowded)
  moreover from i have "i = 0" by simp
  ultimately have "distance_to (vertices crowded ! 0) (coordinates (Node_init [] 1 0)) \<le> 1 / 10"
    using fw by (simp add: first_within_def)
  with s st near loose pass show ?thesis by simp
qed

section \<open>Connecting twice\<close>

text \<open>The result of \<open>connect\<close> is computed from the vertices, the edges and the sentinel
  alone.\<close>

lemma connect_same_inputs:
  assumes "connect c = Inr (c', ds, us)"
    and "vertices d = vertices c" and "edges d = edges c" and "endSentinel d = endSentinel c"
  shows "connect d = Inr (d\<lparr>out_node_index := out_node_index c', incidenceMatrixDS := ds,
                            incidenceMatrixUS := us\<rparr>, ds, us)"
proof -
  from connect_Inr [OF assms(1)] obtain i where
    i: "first_outlet (vertices c) i"
    and c': "c' = c\<lparr>out_node_index := int i, incidenceMatrixDS := ds, incidenceMatrixUS := us\<rparr>"
    by blast
  let ?V = "length (vertices c)" and ?E = "length (edges c)"
  let ?c1 = "c\<lparr>out_node_index := int i\<rparr>" and ?d1 = "d\<lparr>out_node_index := int i\<rparr>"
  from assms(1) obtain cm where
    cm: "connection_loop c (edges c) 0 (np_zeros ?V ?E) = Inr cm"
    by (auto simp: connect_def Let_def split: sum.splits)
  from out_node_loop_first [OF first_outlet_exists [OF i], of 0] obtain i' where
    "first_outlet (vertices c) i'" "out_node_loop (vertices c) 0 = Inr (int i')" by auto
  with i first_outlet_unique have out: "out_node_loop (vertices c) 0 = Inr (int i)" by blast
  from assms(1) cm out have run: "incidence_loop ?c1 (edges c) 0
      (np_full ?V ?E (endSentinel c), np_full ?V ?E (endSentinel c)) = Inr (ds, us)"
    by (auto simp: connect_def find_out_node_def Let_def split: sum.splits)
  have cm': "connection_loop d (edges d) 0
      (np_zeros (length (vertices d)) (length (edges d))) = Inr cm"
    using cm connection_loop_same_vertices [of d c] assms(2,3) by simp
  have out': "find_out_node d = Inr ?d1"
    using out assms(2) by (simp add: find_out_node_def)
  have run': "incidence_loop ?d1 (edges ?d1) 0
      (np_full (length (vertices d)) (length (edges d)) (endSentinel ?d1),
       np_full (length (vertices d)) (length (edges d)) (endSentinel ?d1)) = Inr (ds, us)"
    using run incidence_loop_same_vertices [of ?d1 ?c1] assms(2,3,4) by simp
  show ?thesis
    using cm' out' run' by (simp add: connect_def c')
qed

text \<open>
  C9.  When \<open>connect\<close> has succeeded, a second call on the catchment it left behind
  succeeds as well, returns the same two tables and leaves the catchment as it is.  The
  second call computes them anew from the vertices and edges: on any catchment with the
  same vertices, edges and sentinel, whatever tables and outlet index it has stored,
  \<open>connect\<close> returns these two tables and stores them with the same outlet index.
\<close>

theorem connect_twice:
  assumes "connect c = Inr (c', ds, us)"
  shows "connect c' = Inr (c', ds, us) \<and>
     (\<forall>d. vertices d = vertices c \<and> edges d = edges c \<and> endSentinel d = endSentinel c \<longrightarrow>
        connect d = Inr (d\<lparr>out_node_index := out_node_index c', incidenceMatrixDS := ds,
                           incidenceMatrixUS := us\<rparr>, ds, us))"
proof (intro conjI allI impI)
  from connect_Inr [OF assms] obtain i where
    c': "c' = c\<lparr>out_node_index := int i, incidenceMatrixDS := ds, incidenceMatrixUS := us\<rparr>"
    by blast
  then have same: "vertices c' = vertices c" "edges c' = edges c" "endSentinel c' = endSentinel c"
    and fixed: "c'\<lparr>out_node_index := out_node_index c', incidenceMatrixDS := ds,
        incidenceMatrixUS := us\<rparr> = c'"
    by simp_all
  from connect_same_inputs [OF assms same] fixed show "connect c' = Inr (c', ds, us)" by simp
next
  fix d :: catchment
  assume "vertices d = vertices c \<and> edges d = edges c \<and> endSentinel d = endSentinel c"
  with connect_same_inputs [OF assms, of d]
  show "connect d = Inr (d\<lparr>out_node_index := out_node_index c', incidenceMatrixDS := ds,
                           incidenceMatrixUS := us\<rparr>, ds, us)"
    by simp
qed

theorem connect_twice_witness:
  "connect (fork\<lparr>out_node_index := 0,
              incidenceMatrixDS := [[- 1, - 1], [- 1, - 1], [0, 1]],
              incidenceMatrixUS := [[2, - 1], [- 1, 2], [- 1, - 1]]\<rparr>) =
     Inr (fork\<lparr>out_node_index := 0,
              incidenceMatrixDS := [[- 1, - 1], [- 1, - 1], [0, 1]],
              incidenceMatrixUS := [[2, - 1], [- 1, 2], [- 1, - 1]]\<rparr>,
          [[- 1, - 1], [- 1, - 1], [0, 1]],
          [[2, - 1], [- 1, 2], [- 1, - 1]]) \<and>
   connect (fork\<lparr>out_node_index := 7, incidenceMatrixDS := [[5]], incidenceMatrixUS := []\<rparr>) =
     Inr (fork\<lparr>out_node_index := 0,
              incidenceMatrixDS := [[- 1, - 1], [- 1, - 1], [0, 1]],
              incidenceMatrixUS := [[2, - 1], [- 1, 2], [- 1, - 1]]\<rparr>,
          [[- 1, - 1], [- 1, - 1], [0, 1]],
          [[2, - 1], [- 1, 2], [- 1, - 1]])"
proof -
  let ?d = "fork\<lparr>out_node_index := 7, incidenceMatrixDS := [[5]], incidenceMatrixUS := []\<rparr>"
  have same: "vertices ?d = vertices fork \<and> edges ?d = edges fork \<and>
      endSentinel ?d = endSentinel fork"
    by simp
  note again = connect_twice [OF connect_fork, THEN conjunct1]
  note other = connect_twice [OF connect_fork, THEN conjunct2, THEN spec, of ?d, THEN mp,
      OF same]
  from again other show ?thesis by simp
qed

section \<open>Vertex order\<close>

lemma connect_keeps_lists:
  assumes "connect c = Inr (c', ds, us)"
  shows "vertices c' = vertices c \<and> edges c' = edges c \<and> endSentinel c' = endSentinel c"
  using connect_Inr [OF assms] by auto

text \<open>
  C10.  The vertex list of a Catchment built from confluences \<open>C\<close>, basins \<open>B\<close> and
  reaches \<open>R\<close> is \<open>C\<close> followed by \<open>B\<close> (an absent list counting as empty): index \<open>i\<close>
  is \<open>C[i]\<close> below \<open>|C|\<close> and \<open>B[i - |C|]\<close> from there on, and the edge list is \<open>R\<close>.
  \<open>connect\<close> leaves both lists as they are, and every entry of the two tables it
  returns is the sentinel -1 or an index into the vertex list.
\<close>

theorem vertex_order_fixed:
  "vertices (Catchment_init C B R) = map Confluence (or_empty C) @ map Basin (or_empty B) \<and>
   edges (Catchment_init C B R) = or_empty R \<and>
   (\<forall>i<length (or_empty C). vertices (Catchment_init C B R) ! i = Confluence (or_empty C ! i)) \<and>
   (\<forall>i<length (or_empty B).
      vertices (Catchment_init C B R) ! (length (or_empty C) + i) = Basin (or_empty B ! i)) \<and>
   (\<forall>c' ds us. connect (Catchment_init C B R) = Inr (c', ds, us) \<longrightarrow>
      vertices c' = vertices (Catchment_init C B R) \<and>
      edges c' = edges (Catchment_init C B R) \<and>
      (\<forall>v<length (vertices c'). \<forall>j<length (edges c').
         (ds ! v ! j = - 1 \<or> (0 \<le> ds ! v ! j \<and> ds ! v ! j < int (length (vertices c')))) \<and>
         (us ! v ! j = - 1 \<or> (0 \<le> us ! v ! j \<and> us ! v ! j < int (length (vertices c'))))))"
proof (intro conjI allI impI)
  show "vertices (Catchment_init C B R) = map Confluence (or_empty C) @ map Basin (or_empty B)"
    by (simp add: Catchment_init_def)
  show "edges (Catchment_init C B R) = or_empty R"
    by (simp add: Catchment_init_def)
next
  fix i
  assume "i < length (or_empty C)"
  then show "vertices (Catchment_init C B R) ! i = Confluence (or_empty C ! i)"
    by (simp add: Catchment_init_def nth_append)
next
  fix i
  assume "i < length (or_empty B)"
  then show "vertices (Catchment_init C B R) ! (length (or_empty C) + i) = Basin (or_empty B ! i)"
    by (simp add: Catchment_init_def nth_append)
next
  fix c' ds us
  assume a: "connect (Catchment_init C B R) = Inr (c', ds, us)"
  from connect_keeps_lists [OF a]
  show "vertices c' = vertices (Catchment_init C B R)"
    and "edges c' = edges (Catchment_init C B R)" by simp_all
next
  fix c' ds us v j
  let ?c = "Catchment_init C B R"
  assume a: "connect ?c = Inr (c', ds, us)"
    and v: "v < length (vertices c')" and j: "j < length (edges c')"
  from connect_keeps_lists [OF a] v j
  have v': "v < length (vertices ?c)" and j': "j < length (edges ?c)"
    and len: "length (vertices c') = length (vertices ?c)" by simp_all
  have s: "endSentinel ?c = - 1" by (simp add: Catchment_init_def)
  from connect_Inr [OF a] v' j' s
  have "ds ! v ! j =
          (if start_index ?c (edges ?c ! j) = int v \<and> end_index ?c (edges ?c ! j) \<noteq> - 1
           then end_index ?c (edges ?c ! j) else - 1)"
    and "us ! v ! j =
          (if end_index ?c (edges ?c ! j) = int v \<and> start_index ?c (edges ?c ! j) \<noteq> - 1
           then start_index ?c (edges ?c ! j) else - 1)"
    by simp_all
  with start_index_range [of ?c "edges ?c ! j"] end_index_range [of ?c "edges ?c ! j"] len
  show "ds ! v ! j = - 1 \<or> (0 \<le> ds ! v ! j \<and> ds ! v ! j < int (length (vertices c')))"
    and "us ! v ! j = - 1 \<or> (0 \<le> us ! v ! j \<and> us ! v ! j < int (length (vertices c')))"
    by (auto split: if_splits)
qed

theorem vertex_order_fixed_witness:
  "vertices fork ! 1 = Confluence (Confluence_init ''J'' 2 0 False) \<and>
   vertices fork ! (2 + 0) = Basin (Basin_init ''B'' 1 0 1 0) \<and>
   vertices (fork\<lparr>out_node_index := 0,
              incidenceMatrixDS := [[- 1, - 1], [- 1, - 1], [0, 1]],
              incidenceMatrixUS := [[2, - 1], [- 1, 2], [- 1, - 1]]\<rparr>) = vertices fork \<and>
   edges (fork\<lparr>out_node_index := 0,
              incidenceMatrixDS := [[- 1, - 1], [- 1, - 1], [0, 1]],
              incidenceMatrixUS := [[2, - 1], [- 1, 2], [- 1, - 1]]\<rparr>) = edges fork"
proof -
  let ?C = "[Confluence_init ''O'' 0 0 True, Confluence_init ''J'' 2 0 False]"
  let ?B = "[Basin_init ''B'' 1 0 1 0]"
  let ?R = "[Reach_init ''r0'' [Node_init [] 1 0, Node_init [] 0 0] NATURAL 0,
            Reach_init ''r1'' [Node_init [] 1 0, Node_init [] 2 0] NATURAL 0]"
  have f: "fork = Catchment_init (Some ?C) (Some ?B) (Some ?R)" by (simp add: fork_def)
  note th = vertex_order_fixed [of "Some ?C" "Some ?B" "Some ?R", folded f]
  have c: "(1::nat) < length (or_empty (Some ?C))" and b: "(0::nat) < length (or_empty (Some ?B))"
    by (simp_all add: or_empty_def)
  from th c have "vertices fork ! 1 = Confluence (or_empty (Some ?C) ! 1)" by blast
  moreover from th b
  have "vertices fork ! (length (or_empty (Some ?C)) + 0) = Basin (or_empty (Some ?B) ! 0)"
    by blast
  moreover from th connect_fork
  have "vertices (fork\<lparr>out_node_index := 0,
              incidenceMatrixDS := [[- 1, - 1], [- 1, - 1], [0, 1]],
              incidenceMatrixUS := [[2, - 1], [- 1, 2], [- 1, - 1]]\<rparr>) = vertices fork \<and>
   edges (fork\<lparr>out_node_index := 0,
              incidenceMatrixDS := [[- 1, - 1], [- 1, - 1], [0, 1]],
              incidenceMatrixUS := [[2, - 1], [- 1, 2], [- 1, - 1]]\<rparr>) = edges fork"
    by blast
  ultimately show ?thesis by (simp add: or_empty_def eval_nat_numeral)
qed

section \<open>The example travellers\<close>

lemma connect_chain:
  "connect chain =
     Inr (chain_connected,
          [[- 1, 1, - 1, - 1], [- 1, - 1, 4, - 1], [- 1, - 1, - 1, - 1],
           [0, - 1, - 1, - 1], [- 1, - 1, - 1, 2]],
          [[3, - 1, - 1, - 1], [- 1, 0, - 1, - 1], [- 1, - 1, - 1, 4],
           [- 1, - 1, - 1, - 1], [- 1, - 1, 1, - 1]])"
  by (simp add: chain_connected_def chain_def eval_simps)

lemma connect_cycle:
  "connect cycle =
     Inr (cycle_connected,
          [[- 1, - 1, - 1], [- 1, 2, - 1], [- 1, - 1, 1], [1, - 1, - 1]],
          [[- 1, - 1, - 1], [3, - 1, 2], [- 1, 1, - 1], [- 1, - 1, - 1]])"
  by (simp add: cycle_connected_def cycle_def eval_simps)

lemmas traveller_simps =
  Traveller_def Catchment_init_def or_empty_def is_basin_at_def pure_junction_def
  is_outlet_at_def

lemma chain_down:
  "down (Traveller chain_connected) 3 = Inr 0"
  "down (Traveller chain_connected) 0 = Inr 1"
  "down (Traveller chain_connected) 1 = Inr 4"
  "down (Traveller chain_connected) 4 = Inr 2"
  by (simp_all add: chain_connected_def chain_def traveller_simps)

lemma chain_nodes:
  "pure_junction (Traveller chain_connected) 0"
  "pure_junction (Traveller chain_connected) 1"
  "is_basin_at (Traveller chain_connected) 4"
  "is_outlet_at (Traveller chain_connected) 2"
  by (simp_all add: chain_connected_def chain_def traveller_simps)

lemma cycle_down:
  "down (Traveller cycle_connected) 3 = Inr 1"
  "down (Traveller cycle_connected) 1 = Inr 2"
  "down (Traveller cycle_connected) 2 = Inr 1"
  by (simp_all add: cycle_connected_def cycle_def traveller_simps)

lemma cycle_nodes:
  "pure_junction (Traveller cycle_connected) 1"
  "pure_junction (Traveller cycle_connected) 2"
  by (simp_all add: cycle_connected_def cycle_def traveller_simps)

section \<open>Effective downstream\<close>

lemma getDsIndex_junction:
  "down t i = Inr j \<Longrightarrow> pure_junction t j \<Longrightarrow> getDsIndex (Suc n) t i = getDsIndex n t j"
  by (auto simp: pure_junction_def split: sum.splits vertex.splits)

lemma getDsIndex_basin:
  "down t i = Inr w \<Longrightarrow> is_basin_at t w \<Longrightarrow> getDsIndex (Suc n) t i = Some (Inr w)"
  by (auto simp: is_basin_at_def split: sum.splits vertex.splits)

lemma getDsIndex_outlet:
  "down t i = Inr w \<Longrightarrow> is_outlet_at t w \<Longrightarrow>
   getDsIndex (Suc n) t i = Some (Inr (t_endSentinel t))"
  by (auto simp: is_outlet_at_def split: sum.splits vertex.splits)

lemma down_walk_append:
  "down_walk t i (js @ [w]) \<longleftrightarrow> down_walk t i js \<and> down t (last (i # js)) = Inr w"
  by (induction js arbitrary: i) auto

text \<open>Passing the junctions \<open>js\<close> takes one nested call each.\<close>

lemma getDsIndex_skip:
  assumes "down_walk t i js" and "\<forall>j\<in>set js. pure_junction t j"
  shows "getDsIndex (length js + n) t i = getDsIndex n t (last (i # js))"
  using assms
proof (induction js arbitrary: i)
  case Nil
  then show ?case by simp
next
  case (Cons j js)
  then have "getDsIndex (Suc (length js + n)) t i = getDsIndex (length js + n) t j"
    by (intro getDsIndex_junction) simp_all
  with Cons show ?case by simp
qed

lemma getDsIndex_short:
  assumes "down_walk t i js" and "\<forall>j\<in>set js. pure_junction t j" and "n \<le> length js"
  shows "getDsIndex n t i = None"
  using assms
proof (induction js arbitrary: i n)
  case Nil
  then show ?case by simp
next
  case (Cons j js)
  show ?case
  proof (cases n)
    case 0
    then show ?thesis by simp
  next
    case (Suc m)
    with Cons.prems have "getDsIndex (Suc m) t i = getDsIndex m t j"
      by (intro getDsIndex_junction) simp_all
    moreover from Cons.prems Suc have "getDsIndex m t j = None"
      by (intro Cons.IH) simp_all
    ultimately show ?thesis using Suc by simp
  qed
qed

lemma getDsIndex_walk:
  assumes "down_walk t i (js @ [w])" and "\<forall>j\<in>set js. pure_junction t j"
    and "length js < n"
  shows "is_basin_at t w \<Longrightarrow> getDsIndex n t i = Some (Inr w)"
    and "is_outlet_at t w \<Longrightarrow> getDsIndex n t i = Some (Inr (t_endSentinel t))"
proof -
  from assms(1) have walk: "down_walk t i js" and last: "down t (last (i # js)) = Inr w"
    by (simp_all add: down_walk_append)
  from assms(3) obtain m where n: "n = length js + Suc m"
    by (metis less_imp_Suc_add add_Suc_right)
  have skip: "getDsIndex n t i = getDsIndex (Suc m) t (last (i # js))"
    unfolding n using walk assms(2) by (rule getDsIndex_skip)
  show "getDsIndex n t i = Some (Inr w)" if "is_basin_at t w"
    using skip getDsIndex_basin [OF last that] by simp
  show "getDsIndex n t i = Some (Inr (t_endSentinel t))" if "is_outlet_at t w"
    using skip getDsIndex_outlet [OF last that] by simp
qed

text \<open>
  C4.  \<open>WBNM._getDsIndex\<close>: when the downstream links from vertex \<open>i\<close> lead through the
  vertices \<open>js\<close>, all of them Confluences that are not the outlet, to a vertex \<open>w\<close>, the
  result is \<open>w\<close> if \<open>w\<close> is a Basin and the end sentinel if \<open>w\<close> is the outlet, as soon as
  the recursion may go one level deeper than the number of junctions passed.  The outlet
  itself has no downstream link and is not an \<open>i\<close> of this statement; \<open>_subAreaFactory\<close>
  asks for Basins only.
\<close>

theorem effective_downstream:
  assumes "down_walk t i (js @ [w])" and "\<forall>j\<in>set js. pure_junction t j"
  shows "\<forall>n>length js.
     (is_basin_at t w \<longrightarrow> getDsIndex n t i = Some (Inr w)) \<and>
     (is_outlet_at t w \<longrightarrow> getDsIndex n t i = Some (Inr (t_endSentinel t)))"
  using getDsIndex_walk [OF assms] by blast

theorem effective_downstream_witness:
  "getDsIndex 3 (Traveller chain_connected) 3 = Some (Inr 4) \<and>
   getDsIndex 1 (Traveller chain_connected) 4 = Some (Inr (- 1))"
proof -
  let ?t = "Traveller chain_connected"
  have w1: "down_walk ?t 3 ([0, 1] @ [4])" and j1: "\<forall>j\<in>set [0, 1]. pure_junction ?t j"
    by (simp_all add: chain_down chain_nodes)
  have w2: "down_walk ?t 4 ([] @ [2])" and j2: "\<forall>j\<in>set []. pure_junction ?t j"
    by (simp_all add: chain_down)
  have s: "t_endSentinel ?t = - 1"
    by (simp add: chain_connected_def chain_def traveller_simps)
  from effective_downstream [OF w1 j1, THEN spec, of 3] chain_nodes(3)
  have "getDsIndex 3 ?t 3 = Some (Inr 4)" by simp
  moreover from effective_downstream [OF w2 j2, THEN spec, of 1] chain_nodes(4) s
  have "getDsIndex 1 ?t 4 = Some (Inr (- 1))" by simp
  ultimately show ?thesis by simp
qed

section \<open>Termination of the effective downstream\<close>

text \<open>From a set of vertices whose downstream links stay in the set and lead to pure
  junctions only, no depth of recursion is enough.\<close>

lemma getDsIndex_closed:
  assumes "\<forall>v\<in>S. \<exists>w\<in>S. down t v = Inr w \<and> pure_junction t w"
  shows "i \<in> S \<Longrightarrow> getDsIndex n t i = None"
proof (induction n arbitrary: i)
  case 0
  then show ?case by simp
next
  case (Suc n)
  with assms obtain w where w: "w \<in> S" "down t i = Inr w" "pure_junction t w" by blast
  then have "getDsIndex (Suc n) t i = getDsIndex n t w" by (intro getDsIndex_junction)
  with Suc.IH [OF w(1)] show ?case by simp
qed

lemma cycle_closed:
  "\<forall>v\<in>{3, 1, 2}. \<exists>w\<in>{3, 1, 2}.
     down (Traveller cycle_connected) v = Inr w \<and> pure_junction (Traveller cycle_connected) w"
  by (simp add: cycle_down cycle_nodes)

text \<open>
  C5 as stated fails.  In \<open>cycle\<close> the basin (vertex 3) drains into two Confluences,
  neither the outlet, whose reaches lead to each other.  There are four vertices; with
  four nested calls, and with a thousand, \<open>_getDsIndex\<close> has neither returned nor raised
  anything, \<open>MalformedTopology\<close> included.
\<close>

theorem no_cycle_guard_counterexample:
  "length (vertices cycle_connected) = 4 \<and>
   getDsIndex 4 (Traveller cycle_connected) 3 = None \<and>
   getDsIndex 1000 (Traveller cycle_connected) 3 = None"
proof -
  have "length (vertices cycle_connected) = 4"
    by (simp add: cycle_connected_def cycle_def Catchment_init_def or_empty_def)
  moreover have "getDsIndex n (Traveller cycle_connected) 3 = None" for n
    using cycle_closed by (rule getDsIndex_closed) simp
  ultimately show ?thesis by simp
qed

text \<open>
  C5, amended.  \<open>_getDsIndex\<close> returns when the downstream walk from the vertex reaches a
  Basin or the outlet, and then it needs exactly one nested call per vertex of the walk:
  one more than the number of junctions passed, which on a tree is at most its depth.
  There is no cycle guard: from vertices whose downstream links lead only to Confluences
  that are not the outlet and never leave them, no number of nested calls makes it
  return or raise.
\<close>

theorem effective_downstream_termination:
  "(\<forall>js w. down_walk t i (js @ [w]) \<and> (\<forall>j\<in>set js. pure_junction t j) \<and>
       (is_basin_at t w \<or> is_outlet_at t w) \<longrightarrow>
       (\<forall>n. (getDsIndex n t i \<noteq> None) = (length js < n))) \<and>
   (\<forall>S. i \<in> S \<and> (\<forall>v\<in>S. \<exists>w\<in>S. down t v = Inr w \<and> pure_junction t w) \<longrightarrow>
       (\<forall>n. getDsIndex n t i = None))"
proof (intro conjI allI impI)
  fix js w n
  assume a: "down_walk t i (js @ [w]) \<and> (\<forall>j\<in>set js. pure_junction t j) \<and>
       (is_basin_at t w \<or> is_outlet_at t w)"
  then have walk: "down_walk t i js" by (simp add: down_walk_append)
  show "(getDsIndex n t i \<noteq> None) = (length js < n)"
  proof (cases "length js < n")
    case True
    with a getDsIndex_walk [of t i js w n] show ?thesis by auto
  next
    case False
    with a walk getDsIndex_short [of t i js n] show ?thesis by simp
  qed
next
  fix S n
  assume "i \<in> S \<and> (\<forall>v\<in>S. \<exists>w\<in>S. down t v = Inr w \<and> pure_junction t w)"
  then show "getDsIndex n t i = None" using getDsIndex_closed [of S t i n] by blast
qed

theorem effective_downstream_termination_witness:
  "getDsIndex 2 (Traveller chain_connected) 3 = None \<and>
   getDsIndex 3 (Traveller chain_connected) 3 \<noteq> None \<and>
   getDsIndex 7 (Traveller cycle_connected) 3 = None"
proof -
  let ?t = "Traveller chain_connected"
  have w: "down_walk ?t 3 ([0, 1] @ [4]) \<and> (\<forall>j\<in>set [0, 1]. pure_junction ?t j) \<and>
      (is_basin_at ?t 4 \<or> is_outlet_at ?t 4)"
    by (simp add: chain_down chain_nodes)
  note walk = effective_downstream_termination [of ?t 3, THEN conjunct1, THEN spec,
      of "[0, 1]", THEN spec, of 4, THEN mp, OF w]
  from walk [THEN spec, of 2] have a: "getDsIndex 2 ?t 3 = None" by simp
  from walk [THEN spec, of 3] have b: "getDsIndex 3 ?t 3 \<noteq> None" by simp
  have "(3::int) \<in> {3, 1, 2}" by simp
  with cycle_closed
    effective_downstream_termination [of "Traveller cycle_connected" 3, THEN conjunct2,
      THEN spec, of "{3, 1, 2}"]
  have "getDsIndex 7 (Traveller cycle_connected) 3 = None" by blast
  with a b show ?thesis by simp
qed

end
